theory Spec2Isabelle
  imports Complex_Main
begin

section \<open>Data model\<close>

text \<open>
  The calculator of \<^verbatim>\<open>src/main.cpp\<close> (with trace output) and of
  \<^verbatim>\<open>src/clean/main.cpp\<close> (without). A token is the struct
  \<^verbatim>\<open>Token {type, value, op}\<close>, a vector is a list that grows at its end,
  a \<^verbatim>\<open>std::stack\<close> is a list whose head is the top, and every
  \<^verbatim>\<open>throw std::runtime_error\<close> is an \<open>Inl\<close> result.
\<close>

datatype Type = NUMBER | OPERATOR | PAREN_LEFT | PAREN_RIGHT

record 'v Token =
  type :: Type
  "value" :: 'v
  op :: char

text \<open>
  The C++ type \<^verbatim>\<open>double\<close> and the library functions on it are parameters of the
  model: \<open>'v\<close> is the type of doubles, and a record of operations says what
  \<^verbatim>\<open>+ - * /\<close>, \<^verbatim>\<open>pow\<close>, unary \<^verbatim>\<open>-\<close>, the test \<^verbatim>\<open>y == 0\<close>,
  the constants \<^verbatim>\<open>0\<close> and \<^verbatim>\<open>100.0\<close> and \<^verbatim>\<open>std::stod\<close> compute.
  \<^verbatim>\<open>std::stod\<close> returns \<open>None\<close> where the library throws
  \<^verbatim>\<open>std::out_of_range\<close>. Theorems stated for every such record hold for
  IEEE-754 binary64 in particular.
\<close>

record 'v arith =
  d_zero :: 'v
  d_hundred :: 'v
  d_is_zero :: "'v \<Rightarrow> bool"
  d_add :: "'v \<Rightarrow> 'v \<Rightarrow> 'v"
  d_sub :: "'v \<Rightarrow> 'v \<Rightarrow> 'v"
  d_mul :: "'v \<Rightarrow> 'v \<Rightarrow> 'v"
  d_div :: "'v \<Rightarrow> 'v \<Rightarrow> 'v"
  d_pow :: "'v \<Rightarrow> 'v \<Rightarrow> 'v"
  d_neg :: "'v \<Rightarrow> 'v"
  d_stod :: "string \<Rightarrow> 'v option"

datatype error =
    DivisionByZero
  | UnknownOperator char
  | MultipleDecimalPoints
  | StodOutOfRange
  | UnknownCharacter char
  | UnexpectedRightParen
  | UnclosedLeftParen
  | MissingOperandUnaryMinus
  | MissingOperandPercent
  | MissingOperandBinary
  | MalformedExpression

text \<open>What the traced variant writes to \<^verbatim>\<open>std::cout\<close>, one event per statement.\<close>

datatype 'v event =
    PushOnto 'v
  | UnaryMinusApplied 'v 'v
  | PercentApplied 'v 'v
  | Applying char 'v 'v 'v
  | DebugStage string
  | DebugNumber 'v
  | DebugOperator char
  | DebugParenLeft
  | DebugParenRight
  | DebugRule

section \<open>src/main.cpp\<close>

subsection \<open>Operator table\<close>

definition precedence :: "char \<Rightarrow> int" where
  "precedence c =
    (if c = CHR ''+'' \<or> c = CHR ''-'' then 1
     else if c = CHR ''*'' \<or> c = CHR ''/'' then 2
     else if c = CHR ''u'' then 3
     else if c = CHR ''^'' then 4
     else if c = CHR ''%'' then 5
     else 0)"

definition isRightAssociative :: "char \<Rightarrow> bool" where
  "isRightAssociative c \<longleftrightarrow> c = CHR ''^'' \<or> c = CHR ''u'' \<or> c = CHR ''%''"

definition applyOperation :: "'v arith \<Rightarrow> 'v \<Rightarrow> 'v \<Rightarrow> char \<Rightarrow> error + 'v" where
  "applyOperation A x y c =
    (if c = CHR ''+'' then Inr (d_add A x y)
     else if c = CHR ''-'' then Inr (d_sub A x y)
     else if c = CHR ''*'' then Inr (d_mul A x y)
     else if c = CHR ''/'' then
       (if d_is_zero A y then Inl DivisionByZero else Inr (d_div A x y))
     else if c = CHR ''^'' then Inr (d_pow A x y)
     else Inl (UnknownOperator c))"

subsection \<open>tokenize\<close>

text \<open>\<^verbatim>\<open>isspace\<close> and \<^verbatim>\<open>isdigit\<close> in the C locale.\<close>

definition isspace :: "char \<Rightarrow> bool" where
  "isspace c \<longleftrightarrow> c \<in> set [CHR '' '', CHR 0x09, CHR 0x0A, CHR 0x0B, CHR 0x0C, CHR 0x0D]"

definition isdigit :: "char \<Rightarrow> bool" where
  "isdigit c \<longleftrightarrow> c \<in> set ''0123456789''"

text \<open>
  The inner \<^verbatim>\<open>while\<close> of the number branch, from position \<open>i\<close> with the rest of
  the input from there: it returns the position after the literal, the accumulated
  \<^verbatim>\<open>numStr\<close> and the input left.
\<close>

fun scanNumber :: "nat \<Rightarrow> string \<Rightarrow> bool \<Rightarrow> string \<Rightarrow> error + (nat \<times> string \<times> string)" where
  "scanNumber i [] hasDecimal numStr = Inr (i, numStr, [])"
| "scanNumber i (c # cs) hasDecimal numStr =
    (if isdigit c \<or> c = CHR ''.'' then
       (if c = CHR ''.'' \<and> hasDecimal then Inl MultipleDecimalPoints
        else scanNumber (i + 1) cs (if c = CHR ''.'' then True else hasDecimal) (numStr @ [c]))
     else Inr (i, numStr, c # cs))"

lemma scanNumber_length:
  "scanNumber i cs h n = Inr (i', n', rest) \<Longrightarrow> length rest \<le> length cs"
proof (induction cs arbitrary: i h n)
  case Nil
  then show ?case by simp
next
  case (Cons c cs)
  from Cons.prems
  have "rest = c # cs \<or>
        scanNumber (i + 1) cs (if c = CHR ''.'' then True else h) (n @ [c]) = Inr (i', n', rest)"
    by (simp split: if_splits)
  then show ?case
  proof
    assume "rest = c # cs"
    then show ?thesis by simp
  next
    assume "scanNumber (i + 1) cs (if c = CHR ''.'' then True else h) (n @ [c]) = Inr (i', n', rest)"
    then have "length rest \<le> length cs" by (rule Cons.IH)
    then show ?thesis by simp
  qed
qed

definition unaryMinusToken :: "'v arith \<Rightarrow> 'v Token" where
  "unaryMinusToken A = \<lparr>type = OPERATOR, value = d_zero A, op = CHR ''u''\<rparr>"

definition operatorToken :: "'v arith \<Rightarrow> char \<Rightarrow> 'v Token" where
  "operatorToken A c = \<lparr>type = OPERATOR, value = d_zero A, op = c\<rparr>"

definition numberToken :: "'v \<Rightarrow> 'v Token" where
  "numberToken v = \<lparr>type = NUMBER, value = v, op = CHR 0x00\<rparr>"

definition leftParenToken :: "'v arith \<Rightarrow> 'v Token" where
  "leftParenToken A = \<lparr>type = PAREN_LEFT, value = d_zero A, op = CHR 0x00\<rparr>"

definition rightParenToken :: "'v arith \<Rightarrow> 'v Token" where
  "rightParenToken A = \<lparr>type = PAREN_RIGHT, value = d_zero A, op = CHR 0x00\<rparr>"

definition isOperatorChar :: "char \<Rightarrow> bool" where
  "isOperatorChar c \<longleftrightarrow>
     c = CHR ''+'' \<or> c = CHR ''-'' \<or> c = CHR ''*'' \<or> c = CHR ''/'' \<or> c = CHR ''^'' \<or> c = CHR ''%''"

text \<open>
  The outer \<^verbatim>\<open>while (i < expr.size())\<close>: \<open>i\<close> is the index, the string is the
  input from \<open>i\<close> on, \<open>tokens\<close> the vector so far.
\<close>

function tokenize_loop :: "'v arith \<Rightarrow> nat \<Rightarrow> string \<Rightarrow> 'v Token list \<Rightarrow> error + 'v Token list" where
  "tokenize_loop A i [] tokens = Inr tokens"
| "tokenize_loop A i (c # cs) tokens =
    (if isspace c then tokenize_loop A (i + 1) cs tokens
     else if c = CHR ''-'' \<and>
             (i = 0 \<or> tokens = [] \<or> type (last tokens) = OPERATOR \<or> type (last tokens) = PAREN_LEFT)
       then tokenize_loop A (i + 1) cs (tokens @ [unaryMinusToken A])
     else if isdigit c \<or> (c = CHR ''.'' \<and> cs \<noteq> [] \<and> isdigit (hd cs)) then
       (case scanNumber i (c # cs) False [] of
          Inl e \<Rightarrow> Inl e
        | Inr (i', numStr, rest) \<Rightarrow>
            (case d_stod A numStr of
               None \<Rightarrow> Inl StodOutOfRange
             | Some v \<Rightarrow> tokenize_loop A i' rest (tokens @ [numberToken v])))
     else if isOperatorChar c then tokenize_loop A (i + 1) cs (tokens @ [operatorToken A c])
     else if c = CHR ''('' then tokenize_loop A (i + 1) cs (tokens @ [leftParenToken A])
     else if c = CHR '')'' then tokenize_loop A (i + 1) cs (tokens @ [rightParenToken A])
     else Inl (UnknownCharacter c))"
  by pat_completeness auto
termination
proof (relation "measure (\<lambda>(A, i, cs, tokens). length cs)", goal_cases)
  case 1
  show ?case by simp
next
  case (2 A i c cs tokens)
  show ?case by simp
next
  case (3 A i c cs tokens)
  show ?case by simp
next
  case (4 A i c cs tokens x2 x y xa ya x2a)
  have "length ya \<le> length cs"
  proof -
    from 4 have "scanNumber (i + 1) cs (if c = CHR ''.'' then True else False) [c] = Inr (x, xa, ya)"
      by (auto split: if_splits)
    then show ?thesis by (rule scanNumber_length)
  qed
  then show ?case by simp
next
  case 5
  show ?case by simp
next
  case 6
  show ?case by simp
next
  case 7
  show ?case by simp
qed

definition tokenize :: "'v arith \<Rightarrow> string \<Rightarrow> error + 'v Token list" where
  "tokenize A expr = tokenize_loop A 0 expr []"

subsection \<open>toPostfix\<close>

text \<open>
  The \<^verbatim>\<open>while\<close> of the operator branch: it moves operators from the stack to the
  output while the top is an operator that the arriving token \<open>tok\<close> does not bind
  tighter than.
\<close>

fun popOperators :: "'v Token \<Rightarrow> 'v Token list \<Rightarrow> 'v Token list \<Rightarrow> 'v Token list \<times> 'v Token list" where
  "popOperators tok output [] = (output, [])"
| "popOperators tok output (t # opStack) =
    (if type t = OPERATOR then
       (if (\<not> isRightAssociative (op tok) \<and> precedence (op t) \<ge> precedence (op tok)) \<or>
           (isRightAssociative (op tok) \<and> precedence (op t) > precedence (op tok))
        then popOperators tok (output @ [t]) opStack
        else (output, t # opStack))
     else (output, t # opStack))"

text \<open>The \<^verbatim>\<open>while\<close> of the right-parenthesis branch.\<close>

fun popUntilLeftParen :: "'v Token list \<Rightarrow> 'v Token list \<Rightarrow> 'v Token list \<times> 'v Token list" where
  "popUntilLeftParen output [] = (output, [])"
| "popUntilLeftParen output (t # opStack) =
    (if type t \<noteq> PAREN_LEFT then popUntilLeftParen (output @ [t]) opStack
     else (output, t # opStack))"

text \<open>The final \<^verbatim>\<open>while\<close>, after the tokens are consumed.\<close>

fun drainStack :: "'v Token list \<Rightarrow> 'v Token list \<Rightarrow> error + 'v Token list" where
  "drainStack output [] = Inr output"
| "drainStack output (t # opStack) =
    (if type t = PAREN_LEFT then Inl UnclosedLeftParen
     else drainStack (output @ [t]) opStack)"

fun toPostfix_loop :: "'v Token list \<Rightarrow> 'v Token list \<Rightarrow> 'v Token list \<Rightarrow> error + 'v Token list" where
  "toPostfix_loop [] output opStack = drainStack output opStack"
| "toPostfix_loop (tok # tokens) output opStack =
    (if type tok = NUMBER then toPostfix_loop tokens (output @ [tok]) opStack
     else if type tok = OPERATOR then
       (case popOperators tok output opStack of
          (output', opStack') \<Rightarrow> toPostfix_loop tokens output' (tok # opStack'))
     else if type tok = PAREN_LEFT then toPostfix_loop tokens output (tok # opStack)
     else if type tok = PAREN_RIGHT then
       (case popUntilLeftParen output opStack of
          (output', opStack') \<Rightarrow>
            (if opStack' = [] then Inl UnexpectedRightParen
             else toPostfix_loop tokens output' (tl opStack')))
     else toPostfix_loop tokens output opStack)"

definition toPostfix :: "'v Token list \<Rightarrow> error + 'v Token list" where
  "toPostfix tokens = toPostfix_loop tokens [] []"

subsection \<open>evaluatePostfix, with its trace\<close>

text \<open>
  The loop over the postfix tokens. \<open>st\<close> is the stack of doubles, \<open>out\<close> what has
  been written to \<^verbatim>\<open>std::cout\<close> so far; a \<^verbatim>\<open>throw\<close> keeps the output written
  before it.
\<close>

fun evaluatePostfix_loop ::
  "'v arith \<Rightarrow> 'v Token list \<Rightarrow> 'v list \<Rightarrow> 'v event list \<Rightarrow> 'v event list \<times> (error + 'v list)" where
  "evaluatePostfix_loop A [] st out = (out, Inr st)"
| "evaluatePostfix_loop A (tok # postfix) st out =
    (if type tok = NUMBER then
       evaluatePostfix_loop A postfix (value tok # st) (out @ [PushOnto (value tok)])
     else if type tok = OPERATOR then
       (if op tok = CHR ''u'' then
          (case st of
             [] \<Rightarrow> (out, Inl MissingOperandUnaryMinus)
           | x # st' \<Rightarrow>
               evaluatePostfix_loop A postfix (d_neg A x # st')
                 (out @ [UnaryMinusApplied x (d_neg A x)]))
        else if op tok = CHR ''%'' then
          (case st of
             [] \<Rightarrow> (out, Inl MissingOperandPercent)
           | x # st' \<Rightarrow>
               (let r = d_div A x (d_hundred A)
                in evaluatePostfix_loop A postfix (r # st') (out @ [PercentApplied x r])))
        else
          (case st of
             y # x # st' \<Rightarrow>
               (case applyOperation A x y (op tok) of
                  Inl e \<Rightarrow> (out, Inl e)
                | Inr r \<Rightarrow>
                    evaluatePostfix_loop A postfix (r # st') (out @ [Applying (op tok) x y r]))
           | _ \<Rightarrow> (out, Inl MissingOperandBinary)))
     else evaluatePostfix_loop A postfix st out)"

definition evaluatePostfix ::
  "'v arith \<Rightarrow> 'v Token list \<Rightarrow> 'v event list \<Rightarrow> 'v event list \<times> (error + 'v)" where
  "evaluatePostfix A postfix out =
    (case evaluatePostfix_loop A postfix [] out of
       (out', Inl e) \<Rightarrow> (out', Inl e)
     | (out', Inr st) \<Rightarrow>
         (if length st \<noteq> 1 then (out', Inl MalformedExpression) else (out', Inr (hd st))))"

subsection \<open>debug and evaluateExpr\<close>

fun debugToken :: "'v Token \<Rightarrow> 'v event" where
  "debugToken tok =
    (case type tok of
       NUMBER \<Rightarrow> DebugNumber (value tok)
     | OPERATOR \<Rightarrow> DebugOperator (op tok)
     | PAREN_LEFT \<Rightarrow> DebugParenLeft
     | PAREN_RIGHT \<Rightarrow> DebugParenRight)"

definition debug :: "'v Token list \<Rightarrow> string \<Rightarrow> 'v event list \<Rightarrow> 'v event list" where
  "debug tokens stage out = out @ [DebugStage stage] @ map debugToken tokens @ [DebugRule]"

text \<open>
  \<^verbatim>\<open>evaluateExpr\<close> on the member \<^verbatim>\<open>expr\<close>: the output written and either the
  exception or the value stored in \<^verbatim>\<open>result\<close> and returned.
\<close>

definition evaluateExpr :: "'v arith \<Rightarrow> string \<Rightarrow> 'v event list \<times> (error + 'v)" where
  "evaluateExpr A expr =
    (case tokenize A expr of
       Inl e \<Rightarrow> ([], Inl e)
     | Inr tokens \<Rightarrow>
         (let out1 = debug tokens ''After Tokenization'' []
          in case toPostfix tokens of
               Inl e \<Rightarrow> (out1, Inl e)
             | Inr postfix \<Rightarrow>
                 evaluatePostfix A postfix (debug postfix ''Postfix Conversion'' out1)))"

text \<open>The value or exception of a run, without the output.\<close>

definition outcome :: "'v event list \<times> (error + 'v) \<Rightarrow> error + 'v" where
  "outcome r = snd r"

section \<open>src/clean/main.cpp\<close>

text \<open>
  The second calculator, translated function by function from its own file. It shares
  the token struct, the C library's \<^verbatim>\<open>isspace\<close> and \<^verbatim>\<open>isdigit\<close> and the
  arithmetic parameter with the first; it writes nothing to \<^verbatim>\<open>std::cout\<close> while it
  evaluates.
\<close>

definition clean_precedence :: "char \<Rightarrow> int" where
  "clean_precedence c =
    (if c = CHR ''+'' \<or> c = CHR ''-'' then 1
     else if c = CHR ''*'' \<or> c = CHR ''/'' then 2
     else if c = CHR ''u'' then 3
     else if c = CHR ''^'' then 4
     else if c = CHR ''%'' then 5
     else 0)"

definition clean_isRightAssociative :: "char \<Rightarrow> bool" where
  "clean_isRightAssociative c \<longleftrightarrow> c = CHR ''^'' \<or> c = CHR ''u'' \<or> c = CHR ''%''"

definition clean_applyOperation :: "'v arith \<Rightarrow> 'v \<Rightarrow> 'v \<Rightarrow> char \<Rightarrow> error + 'v" where
  "clean_applyOperation A x y c =
    (if c = CHR ''+'' then Inr (d_add A x y)
     else if c = CHR ''-'' then Inr (d_sub A x y)
     else if c = CHR ''*'' then Inr (d_mul A x y)
     else if c = CHR ''/'' then
       (if d_is_zero A y then Inl DivisionByZero else Inr (d_div A x y))
     else if c = CHR ''^'' then Inr (d_pow A x y)
     else Inl (UnknownOperator c))"

fun clean_scanNumber :: "nat \<Rightarrow> string \<Rightarrow> bool \<Rightarrow> string \<Rightarrow> error + (nat \<times> string \<times> string)" where
  "clean_scanNumber i [] hasDecimal numStr = Inr (i, numStr, [])"
| "clean_scanNumber i (c # cs) hasDecimal numStr =
    (if isdigit c \<or> c = CHR ''.'' then
       (if c = CHR ''.'' \<and> hasDecimal then Inl MultipleDecimalPoints
        else clean_scanNumber (i + 1) cs (if c = CHR ''.'' then True else hasDecimal) (numStr @ [c]))
     else Inr (i, numStr, c # cs))"

lemma clean_scanNumber_length:
  "clean_scanNumber i cs h n = Inr (i', n', rest) \<Longrightarrow> length rest \<le> length cs"
proof (induction cs arbitrary: i h n)
  case Nil
  then show ?case by simp
next
  case (Cons c cs)
  from Cons.prems
  have "rest = c # cs \<or>
        clean_scanNumber (i + 1) cs (if c = CHR ''.'' then True else h) (n @ [c]) = Inr (i', n', rest)"
    by (simp split: if_splits)
  then show ?case
  proof
    assume "rest = c # cs"
    then show ?thesis by simp
  next
    assume "clean_scanNumber (i + 1) cs (if c = CHR ''.'' then True else h) (n @ [c]) = Inr (i', n', rest)"
    then have "length rest \<le> length cs" by (rule Cons.IH)
    then show ?thesis by simp
  qed
qed

function clean_tokenize_loop :: "'v arith \<Rightarrow> nat \<Rightarrow> string \<Rightarrow> 'v Token list \<Rightarrow> error + 'v Token list" where
  "clean_tokenize_loop A i [] tokens = Inr tokens"
| "clean_tokenize_loop A i (c # cs) tokens =
    (if isspace c then clean_tokenize_loop A (i + 1) cs tokens
     else if c = CHR ''-'' \<and>
             (i = 0 \<or> tokens = [] \<or> type (last tokens) = OPERATOR \<or> type (last tokens) = PAREN_LEFT)
       then clean_tokenize_loop A (i + 1) cs (tokens @ [unaryMinusToken A])
     else if isdigit c \<or> (c = CHR ''.'' \<and> cs \<noteq> [] \<and> isdigit (hd cs)) then
       (case clean_scanNumber i (c # cs) False [] of
          Inl e \<Rightarrow> Inl e
        | Inr (i', numStr, rest) \<Rightarrow>
            (case d_stod A numStr of
               None \<Rightarrow> Inl StodOutOfRange
             | Some v \<Rightarrow> clean_tokenize_loop A i' rest (tokens @ [numberToken v])))
     else if isOperatorChar c then clean_tokenize_loop A (i + 1) cs (tokens @ [operatorToken A c])
     else if c = CHR ''('' then clean_tokenize_loop A (i + 1) cs (tokens @ [leftParenToken A])
     else if c = CHR '')'' then clean_tokenize_loop A (i + 1) cs (tokens @ [rightParenToken A])
     else Inl (UnknownCharacter c))"
  by pat_completeness auto
termination
proof (relation "measure (\<lambda>(A, i, cs, tokens). length cs)", goal_cases)
  case 1
  show ?case by simp
next
  case (2 A i c cs tokens)
  show ?case by simp
next
  case (3 A i c cs tokens)
  show ?case by simp
next
  case (4 A i c cs tokens x2 x y xa ya x2a)
  have "length ya \<le> length cs"
  proof -
    from 4 have "clean_scanNumber (i + 1) cs (if c = CHR ''.'' then True else False) [c] = Inr (x, xa, ya)"
      by (auto split: if_splits)
    then show ?thesis by (rule clean_scanNumber_length)
  qed
  then show ?case by simp
next
  case 5
  show ?case by simp
next
  case 6
  show ?case by simp
next
  case 7
  show ?case by simp
qed

definition clean_tokenize :: "'v arith \<Rightarrow> string \<Rightarrow> error + 'v Token list" where
  "clean_tokenize A expr = clean_tokenize_loop A 0 expr []"

fun clean_popOperators :: "'v Token \<Rightarrow> 'v Token list \<Rightarrow> 'v Token list \<Rightarrow> 'v Token list \<times> 'v Token list" where
  "clean_popOperators tok output [] = (output, [])"
| "clean_popOperators tok output (t # opStack) =
    (if type t = OPERATOR then
       (if (\<not> clean_isRightAssociative (op tok) \<and> clean_precedence (op t) \<ge> clean_precedence (op tok)) \<or>
           (clean_isRightAssociative (op tok) \<and> clean_precedence (op t) > clean_precedence (op tok))
        then clean_popOperators tok (output @ [t]) opStack
        else (output, t # opStack))
     else (output, t # opStack))"

fun clean_popUntilLeftParen :: "'v Token list \<Rightarrow> 'v Token list \<Rightarrow> 'v Token list \<times> 'v Token list" where
  "clean_popUntilLeftParen output [] = (output, [])"
| "clean_popUntilLeftParen output (t # opStack) =
    (if type t \<noteq> PAREN_LEFT then clean_popUntilLeftParen (output @ [t]) opStack
     else (output, t # opStack))"

fun clean_drainStack :: "'v Token list \<Rightarrow> 'v Token list \<Rightarrow> error + 'v Token list" where
  "clean_drainStack output [] = Inr output"
| "clean_drainStack output (t # opStack) =
    (if type t = PAREN_LEFT then Inl UnclosedLeftParen
     else clean_drainStack (output @ [t]) opStack)"

fun clean_toPostfix_loop :: "'v Token list \<Rightarrow> 'v Token list \<Rightarrow> 'v Token list \<Rightarrow> error + 'v Token list" where
  "clean_toPostfix_loop [] output opStack = clean_drainStack output opStack"
| "clean_toPostfix_loop (tok # tokens) output opStack =
    (if type tok = NUMBER then clean_toPostfix_loop tokens (output @ [tok]) opStack
     else if type tok = OPERATOR then
       (case clean_popOperators tok output opStack of
          (output', opStack') \<Rightarrow> clean_toPostfix_loop tokens output' (tok # opStack'))
     else if type tok = PAREN_LEFT then clean_toPostfix_loop tokens output (tok # opStack)
     else if type tok = PAREN_RIGHT then
       (case clean_popUntilLeftParen output opStack of
          (output', opStack') \<Rightarrow>
            (if opStack' = [] then Inl UnexpectedRightParen
             else clean_toPostfix_loop tokens output' (tl opStack')))
     else clean_toPostfix_loop tokens output opStack)"

definition clean_toPostfix :: "'v Token list \<Rightarrow> error + 'v Token list" where
  "clean_toPostfix tokens = clean_toPostfix_loop tokens [] []"

fun clean_evaluatePostfix_loop :: "'v arith \<Rightarrow> 'v Token list \<Rightarrow> 'v list \<Rightarrow> error + 'v list" where
  "clean_evaluatePostfix_loop A [] st = Inr st"
| "clean_evaluatePostfix_loop A (tok # postfix) st =
    (if type tok = NUMBER then clean_evaluatePostfix_loop A postfix (value tok # st)
     else if type tok = OPERATOR then
       (if op tok = CHR ''u'' then
          (case st of
             [] \<Rightarrow> Inl MissingOperandUnaryMinus
           | x # st' \<Rightarrow> clean_evaluatePostfix_loop A postfix (d_neg A x # st'))
        else if op tok = CHR ''%'' then
          (case st of
             [] \<Rightarrow> Inl MissingOperandPercent
           | x # st' \<Rightarrow>
               (let r = d_div A x (d_hundred A)
                in clean_evaluatePostfix_loop A postfix (r # st')))
        else
          (case st of
             y # x # st' \<Rightarrow>
               (case clean_applyOperation A x y (op tok) of
                  Inl e \<Rightarrow> Inl e
                | Inr r \<Rightarrow> clean_evaluatePostfix_loop A postfix (r # st'))
           | _ \<Rightarrow> Inl MissingOperandBinary))
     else clean_evaluatePostfix_loop A postfix st)"

definition clean_evaluatePostfix :: "'v arith \<Rightarrow> 'v Token list \<Rightarrow> error + 'v" where
  "clean_evaluatePostfix A postfix =
    (case clean_evaluatePostfix_loop A postfix [] of
       Inl e \<Rightarrow> Inl e
     | Inr st \<Rightarrow> (if length st \<noteq> 1 then Inl MalformedExpression else Inr (hd st)))"

text \<open>\<^verbatim>\<open>evaluateExpr\<close> returns nothing here: the value is what it stores in \<^verbatim>\<open>result\<close>.\<close>

definition clean_evaluateExpr :: "'v arith \<Rightarrow> string \<Rightarrow> error + 'v" where
  "clean_evaluateExpr A expr =
    (case clean_tokenize A expr of
       Inl e \<Rightarrow> Inl e
     | Inr tokens \<Rightarrow>
         (case clean_toPostfix tokens of
            Inl e \<Rightarrow> Inl e
          | Inr postfix \<Rightarrow> clean_evaluatePostfix A postfix))"

section \<open>Exact arithmetic\<close>

text \<open>
  One instance of the arithmetic parameter: the reals, with every operation exact.
  The IEEE-754 operations \<^verbatim>\<open>+ - * /\<close> return the exact result whenever that
  result is a double, so this instance computes what binary64 computes as long as
  every literal and every intermediate value is a double; that is so for the small
  integers and halves evaluated below, where \<^verbatim>\<open>pow(3, 2)\<close> and \<^verbatim>\<open>pow(2, 9)\<close> are
  exact powers as well. \<open>exact_stod\<close> reads the decimal numerals the tokenizer builds
  (digits with at most one point, at least one digit) and is never out of range;
  \<open>exact_pow\<close> is the real power, by repeated multiplication for an integer
  exponent. Where \<^verbatim>\<open>pow\<close> has no finite real value the instance is not meant.
\<close>

definition digitsValue :: "string \<Rightarrow> nat" where
  "digitsValue ds = foldl (\<lambda>n c. 10 * n + (of_char c - 48)) 0 ds"

definition exact_stod :: "string \<Rightarrow> real option" where
  "exact_stod numStr =
    (let ip = takeWhile (\<lambda>c. c \<noteq> CHR ''.'') numStr;
         fp = drop (Suc (length ip)) numStr
     in if list_all isdigit ip \<and> list_all isdigit fp \<and> (ip \<noteq> [] \<or> fp \<noteq> [])
        then Some (real (digitsValue ip) + real (digitsValue fp) / 10 ^ length fp)
        else None)"

definition exact_pow :: "real \<Rightarrow> real \<Rightarrow> real" where
  "exact_pow x y = (if y = of_int \<lfloor>y\<rfloor> then x powi \<lfloor>y\<rfloor> else x powr y)"

definition exact_arith :: "real arith" where
  "exact_arith =
    \<lparr>d_zero = 0, d_hundred = 100, d_is_zero = (\<lambda>y. y = 0),
     d_add = (+), d_sub = (-), d_mul = (*), d_div = (/),
     d_pow = exact_pow, d_neg = uminus, d_stod = exact_stod\<rparr>"

text \<open>
  A second instance, for the range of a double: \<^verbatim>\<open>std::stod\<close> throws
  \<^verbatim>\<open>std::out_of_range\<close> when the value of the numeral overflows, which under
  round-to-nearest is from \<open>2 ^ 1024 - 2 ^ 970\<close> on (the largest double plus half
  a unit in its last place). \<open>ranged_arith\<close> is the exact arithmetic with that
  refusal; numerals too small for a double are not refused by it.
\<close>

definition ranged_stod :: "string \<Rightarrow> real option" where
  "ranged_stod numStr =
    (case exact_stod numStr of
       None \<Rightarrow> None
     | Some v \<Rightarrow> (if 2 ^ 1024 - 2 ^ 970 \<le> v then None else Some v))"

definition ranged_arith :: "real arith" where
  "ranged_arith = exact_arith \<lparr>d_stod := ranged_stod\<rparr>"

section \<open>Notions used in the statements\<close>

text \<open>
  How many tokens of a list have a given type; the left parentheses not yet closed,
  counted along a token list (\<open>parenScan\<close>, with the error of the first mismatch);
  the exception of a result, if any; and the token types that the output and the
  operator stack of \<^verbatim>\<open>toPostfix\<close> hold.
\<close>

definition countType :: "Type \<Rightarrow> 'v Token list \<Rightarrow> nat" where
  "countType ty ts = length (filter (\<lambda>t. type t = ty) ts)"

fun parenScan :: "nat \<Rightarrow> 'v Token list \<Rightarrow> error option" where
  "parenScan d [] = (if 0 < d then Some UnclosedLeftParen else None)"
| "parenScan d (t # ts) =
    (if type t = PAREN_LEFT then parenScan (d + 1) ts
     else if type t = PAREN_RIGHT then
       (if d = 0 then Some UnexpectedRightParen else parenScan (d - 1) ts)
     else parenScan d ts)"

definition failure :: "error + 'a \<Rightarrow> error option" where
  "failure r = (case r of Inl e \<Rightarrow> Some e | Inr _ \<Rightarrow> None)"

definition outputToken :: "'v Token \<Rightarrow> bool" where
  "outputToken t \<longleftrightarrow> type t = NUMBER \<or> type t = OPERATOR"

definition stackToken :: "'v Token \<Rightarrow> bool" where
  "stackToken t \<longleftrightarrow> type t = OPERATOR \<or> type t = PAREN_LEFT"

text \<open>
  The shape of a number literal: the characters it is made of, how it starts, and what
  may follow it; the five binary operators; and the two tests of the tokenizer's
  branches under a name of their own.
\<close>

definition numberChar :: "char \<Rightarrow> bool" where
  "numberChar c \<longleftrightarrow> isdigit c \<or> c = CHR ''.''"

definition endsLiteral :: "string \<Rightarrow> bool" where
  "endsLiteral rest \<longleftrightarrow> (case rest of [] \<Rightarrow> True | c # _ \<Rightarrow> \<not> numberChar c)"

definition startsLiteral :: "string \<Rightarrow> bool" where
  "startsLiteral s \<longleftrightarrow>
     (case s of
        [] \<Rightarrow> False
      | c # cs \<Rightarrow> isdigit c \<or> (c = CHR ''.'' \<and> cs \<noteq> [] \<and> isdigit (hd cs)))"

definition isLiteral :: "string \<Rightarrow> bool" where
  "isLiteral s \<longleftrightarrow> startsLiteral s \<and> list_all numberChar s \<and> count_list s (CHR ''.'') \<le> 1"

definition isBinaryOperatorChar :: "char \<Rightarrow> bool" where
  "isBinaryOperatorChar c \<longleftrightarrow>
     c = CHR ''+'' \<or> c = CHR ''-'' \<or> c = CHR ''*'' \<or> c = CHR ''/'' \<or> c = CHR ''^''"

definition unaryPosition :: "nat \<Rightarrow> 'v Token list \<Rightarrow> bool" where
  "unaryPosition i tokens \<longleftrightarrow>
     i = 0 \<or> tokens = [] \<or> type (last tokens) = OPERATOR \<or> type (last tokens) = PAREN_LEFT"

definition numberStart :: "char \<Rightarrow> string \<Rightarrow> bool" where
  "numberStart c cs \<longleftrightarrow> isdigit c \<or> (c = CHR ''.'' \<and> cs \<noteq> [] \<and> isdigit (hd cs))"

definition minusToken :: "'v arith \<Rightarrow> string \<Rightarrow> 'v Token list \<Rightarrow> 'v Token" where
  "minusToken A pre tokens =
     (if list_all isspace pre \<or>
         (tokens \<noteq> [] \<and> (type (last tokens) = OPERATOR \<or> type (last tokens) = PAREN_LEFT))
      then unaryMinusToken A else operatorToken A (CHR ''-''))"

section \<open>Evaluation of concrete inputs\<close>

text \<open>The definitions a concrete run unfolds.\<close>


lemmas token_defs = unaryMinusToken_def operatorToken_def numberToken_def leftParenToken_def
  rightParenToken_def

lemmas char_defs = isspace_def isdigit_def isOperatorChar_def

lemmas pipeline_defs = evaluateExpr_def tokenize_def toPostfix_def evaluatePostfix_def outcome_def
  debug_def precedence_def isRightAssociative_def applyOperation_def Let_def

lemmas exact_defs = exact_arith_def exact_stod_def exact_pow_def digitsValue_def

section \<open>Operator table\<close>

text \<open>
  C5. \<^verbatim>\<open>precedence\<close> ranks \<^verbatim>\<open>+\<close> and \<^verbatim>\<open>-\<close> 1, \<^verbatim>\<open>*\<close> and \<^verbatim>\<open>/\<close> 2,
  unary minus (the character \<^verbatim>\<open>u\<close>) 3, \<^verbatim>\<open>^\<close> 4 and \<^verbatim>\<open>%\<close> 5; of these seven
  operators exactly \<^verbatim>\<open>^\<close>, unary minus and \<^verbatim>\<open>%\<close> are right-associative, and
  \<^verbatim>\<open>+ - * /\<close> are not.
\<close>

theorem operator_table:
  "precedence (CHR ''+'') = 1 \<and> precedence (CHR ''-'') = 1 \<and>
   precedence (CHR ''*'') = 2 \<and> precedence (CHR ''/'') = 2 \<and>
   precedence (CHR ''u'') = 3 \<and> precedence (CHR ''^'') = 4 \<and> precedence (CHR ''%'') = 5 \<and>
   isRightAssociative (CHR ''^'') \<and> isRightAssociative (CHR ''u'') \<and> isRightAssociative (CHR ''%'') \<and>
   \<not> isRightAssociative (CHR ''+'') \<and> \<not> isRightAssociative (CHR ''-'') \<and>
   \<not> isRightAssociative (CHR ''*'') \<and> \<not> isRightAssociative (CHR ''/'')"
  by (simp add: precedence_def isRightAssociative_def)

section \<open>The reordering of operators\<close>

text \<open>
  C2. When an operator token \<open>tok\<close> arrives and the top \<open>t\<close> of the operator stack
  is an operator, \<open>t\<close> is moved to the output exactly when it has strictly higher
  precedence than \<open>tok\<close>, or equal precedence and \<open>tok\<close> is left-associative, and
  the test is repeated on the new top; on any other top, or an empty stack, nothing
  is moved. A right-associative \<open>tok\<close> leaves a top of equal or lower precedence in
  place. Then \<open>tok\<close> is pushed. So \<^verbatim>\<open>2^3^2\<close> evaluates to
  \<^verbatim>\<open>pow(2, pow(3, 2))\<close>, which is 512 in exact arithmetic.
\<close>

theorem operator_pop_rule:
  "(type t = OPERATOR \<longrightarrow>
      popOperators tok output (t # opStack) =
        (if precedence (op t) > precedence (op tok) \<or>
            (precedence (op t) = precedence (op tok) \<and> \<not> isRightAssociative (op tok))
         then popOperators tok (output @ [t]) opStack
         else (output, t # opStack))) \<and>
   (type t \<noteq> OPERATOR \<longrightarrow> popOperators tok output (t # opStack) = (output, t # opStack)) \<and>
   popOperators tok output [] = (output, []) \<and>
   (type t = OPERATOR \<longrightarrow> isRightAssociative (op tok) \<longrightarrow>
      precedence (op t) \<le> precedence (op tok) \<longrightarrow>
      popOperators tok output (t # opStack) = (output, t # opStack)) \<and>
   (type tok = OPERATOR \<longrightarrow>
      toPostfix_loop (tok # tokens) output opStack =
        toPostfix_loop tokens (fst (popOperators tok output opStack))
          (tok # snd (popOperators tok output opStack))) \<and>
   (d_stod A ''2'' = Some a \<longrightarrow> d_stod A ''3'' = Some b \<longrightarrow>
      outcome (evaluateExpr A ''2^3^2'') = Inr (d_pow A a (d_pow A b a))) \<and>
   outcome (evaluateExpr exact_arith ''2^3^2'') = Inr 512"
proof (intro conjI impI)
  assume "type t = OPERATOR"
  then show "popOperators tok output (t # opStack) =
        (if precedence (op t) > precedence (op tok) \<or>
            (precedence (op t) = precedence (op tok) \<and> \<not> isRightAssociative (op tok))
         then popOperators tok (output @ [t]) opStack
         else (output, t # opStack))"
    by auto
next
  assume "type t \<noteq> OPERATOR"
  then show "popOperators tok output (t # opStack) = (output, t # opStack)" by simp
next
  show "popOperators tok output [] = (output, [])" by simp
next
  assume "type t = OPERATOR" "isRightAssociative (op tok)" "precedence (op t) \<le> precedence (op tok)"
  then show "popOperators tok output (t # opStack) = (output, t # opStack)" by simp
next
  assume "type tok = OPERATOR"
  then show "toPostfix_loop (tok # tokens) output opStack =
        toPostfix_loop tokens (fst (popOperators tok output opStack))
          (tok # snd (popOperators tok output opStack))"
    by (simp add: case_prod_beta)
next
  assume "d_stod A ''2'' = Some a" "d_stod A ''3'' = Some b"
  then show "outcome (evaluateExpr A ''2^3^2'') = Inr (d_pow A a (d_pow A b a))"
    by (simp add: pipeline_defs token_defs char_defs)
next
  show "outcome (evaluateExpr exact_arith ''2^3^2'') = Inr 512"
    by (simp add: pipeline_defs token_defs char_defs exact_defs)
qed

theorem operator_pop_rule_witness:
  "type (operatorToken exact_arith CHR ''^'') = OPERATOR \<and>
   isRightAssociative (op (operatorToken exact_arith CHR ''^'')) \<and>
   precedence (op (operatorToken exact_arith CHR ''^'')) \<le> precedence (op (operatorToken exact_arith CHR ''^'')) \<and>
   popOperators (operatorToken exact_arith CHR ''^'') [numberToken 2, numberToken 3]
       [operatorToken exact_arith CHR ''^'']
     = ([numberToken 2, numberToken 3], [operatorToken exact_arith CHR ''^'']) \<and>
   type (leftParenToken exact_arith) \<noteq> OPERATOR \<and>
   popOperators (operatorToken exact_arith CHR ''+'') [] [leftParenToken exact_arith]
     = ([], [leftParenToken exact_arith]) \<and>
   popOperators (operatorToken exact_arith CHR ''-'') [] [operatorToken exact_arith CHR ''+'']
     = ([operatorToken exact_arith CHR ''+''], []) \<and>
   toPostfix_loop [operatorToken exact_arith CHR ''-''] [] [operatorToken exact_arith CHR ''+'']
     = Inr [operatorToken exact_arith CHR ''+'', operatorToken exact_arith CHR ''-''] \<and>
   d_stod exact_arith ''2'' = Some 2 \<and> d_stod exact_arith ''3'' = Some 3 \<and>
   outcome (evaluateExpr exact_arith ''2^3^2'') = Inr (d_pow exact_arith 2 (d_pow exact_arith 3 2)) \<and>
   d_pow exact_arith 2 (d_pow exact_arith 3 2) = 512"
  using operator_pop_rule [of "operatorToken exact_arith CHR ''^''" "operatorToken exact_arith CHR ''^''"
      "[numberToken 2, numberToken 3]" "[]" "[]" exact_arith 2 3]
    operator_pop_rule [of "leftParenToken exact_arith" "operatorToken exact_arith CHR ''+''"
      "[]" "[]" "[]" exact_arith 2 3]
    operator_pop_rule [of "operatorToken exact_arith CHR ''+''" "operatorToken exact_arith CHR ''-''"
      "[]" "[]" "[]" exact_arith 2 3]
  by (simp add: token_defs exact_defs char_defs precedence_def isRightAssociative_def)

section \<open>The postfix evaluator\<close>

text \<open>
  C4. On the operator \<^verbatim>\<open>%\<close> the evaluator fails with the missing-operand error
  for \<^verbatim>\<open>%\<close> when the stack is empty, and otherwise replaces the top \<open>x\<close>
  alone by \<open>x / 100\<close>, whatever lies below it. So \<^verbatim>\<open>50%\<close> evaluates to
  \<^verbatim>\<open>50 / 100\<close> and \<^verbatim>\<open>50%+1\<close> to \<^verbatim>\<open>50 / 100 + 1\<close>: 0.5 and 1.5 in exact
  arithmetic.
\<close>

theorem percent_is_postfix_unary:
  "(type tok = OPERATOR \<longrightarrow> op tok = CHR ''%'' \<longrightarrow>
      evaluatePostfix_loop A (tok # postfix) st out =
        (case st of
           [] \<Rightarrow> (out, Inl MissingOperandPercent)
         | x # st' \<Rightarrow>
             evaluatePostfix_loop A postfix (d_div A x (d_hundred A) # st')
               (out @ [PercentApplied x (d_div A x (d_hundred A))]))) \<and>
   (d_stod B ''50'' = Some a \<longrightarrow>
      outcome (evaluateExpr B ''50%'') = Inr (d_div B a (d_hundred B))) \<and>
   (d_stod B ''50'' = Some a \<longrightarrow> d_stod B ''1'' = Some b \<longrightarrow>
      outcome (evaluateExpr B ''50%+1'') = Inr (d_add B (d_div B a (d_hundred B)) b)) \<and>
   outcome (evaluateExpr exact_arith ''50%'') = Inr 0.5 \<and>
   outcome (evaluateExpr exact_arith ''50%+1'') = Inr 1.5"
proof (intro conjI impI)
  assume "type tok = OPERATOR" "op tok = CHR ''%''"
  then show "evaluatePostfix_loop A (tok # postfix) st out =
        (case st of
           [] \<Rightarrow> (out, Inl MissingOperandPercent)
         | x # st' \<Rightarrow>
             evaluatePostfix_loop A postfix (d_div A x (d_hundred A) # st')
               (out @ [PercentApplied x (d_div A x (d_hundred A))]))"
    by (simp add: Let_def split: list.split)
next
  assume "d_stod B ''50'' = Some a"
  then show "outcome (evaluateExpr B ''50%'') = Inr (d_div B a (d_hundred B))"
    by (simp add: pipeline_defs token_defs char_defs)
next
  assume "d_stod B ''50'' = Some a" "d_stod B ''1'' = Some b"
  then show "outcome (evaluateExpr B ''50%+1'') = Inr (d_add B (d_div B a (d_hundred B)) b)"
    by (simp add: pipeline_defs token_defs char_defs)
next
  show "outcome (evaluateExpr exact_arith ''50%'') = Inr 0.5"
    by (simp add: pipeline_defs token_defs char_defs exact_defs)
next
  show "outcome (evaluateExpr exact_arith ''50%+1'') = Inr 1.5"
    by (simp add: pipeline_defs token_defs char_defs exact_defs)
qed

theorem percent_is_postfix_unary_witness:
  "type (operatorToken exact_arith CHR ''%'') = OPERATOR \<and>
   op (operatorToken exact_arith CHR ''%'') = CHR ''%'' \<and>
   evaluatePostfix_loop exact_arith [operatorToken exact_arith CHR ''%''] [50, 7] []
     = ([PercentApplied 50 0.5], Inr [0.5, 7]) \<and>
   evaluatePostfix_loop exact_arith [operatorToken exact_arith CHR ''%''] [] []
     = ([], Inl MissingOperandPercent) \<and>
   d_stod exact_arith ''50'' = Some 50 \<and> d_stod exact_arith ''1'' = Some 1 \<and>
   outcome (evaluateExpr exact_arith ''50%'') = Inr (d_div exact_arith 50 (d_hundred exact_arith)) \<and>
   outcome (evaluateExpr exact_arith ''50%+1'')
     = Inr (d_add exact_arith (d_div exact_arith 50 (d_hundred exact_arith)) 1)"
  using percent_is_postfix_unary [of "operatorToken exact_arith CHR ''%''" exact_arith "[]" "[50, 7]" "[]" exact_arith 50 1]
    percent_is_postfix_unary [of "operatorToken exact_arith CHR ''%''" exact_arith "[]" "[]" "[]" exact_arith 50 1]
  by (simp add: token_defs exact_defs char_defs)

text \<open>
  C7. When the pass over a postfix sequence ends without an exception, with the
  stack \<open>st\<close>, \<^verbatim>\<open>evaluatePostfix\<close> returns the value of a one-element stack and
  fails with the malformed-expression error on a stack of any other size. The input
  \<^verbatim>\<open>1 2\<close> fails with that error.
\<close>

theorem evaluatePostfix_final_stack:
  "(evaluatePostfix_loop A postfix [] out = (out', Inr st) \<longrightarrow>
      outcome (evaluatePostfix A postfix out) =
        (case st of [v] \<Rightarrow> Inr v | _ \<Rightarrow> Inl MalformedExpression)) \<and>
   (d_stod B ''1'' = Some a \<longrightarrow> d_stod B ''2'' = Some b \<longrightarrow>
      outcome (evaluateExpr B ''1 2'') = Inl MalformedExpression)"
proof (intro conjI impI)
  assume "evaluatePostfix_loop A postfix [] out = (out', Inr st)"
  then show "outcome (evaluatePostfix A postfix out) =
        (case st of [v] \<Rightarrow> Inr v | _ \<Rightarrow> Inl MalformedExpression)"
    by (cases st; cases "tl st") (simp_all add: evaluatePostfix_def outcome_def)
next
  assume "d_stod B ''1'' = Some a" "d_stod B ''2'' = Some b"
  then show "outcome (evaluateExpr B ''1 2'') = Inl MalformedExpression"
    by (simp add: pipeline_defs token_defs char_defs)
qed

theorem evaluatePostfix_final_stack_witness:
  "evaluatePostfix_loop exact_arith [numberToken 7] [] [] = ([PushOnto 7], Inr [7]) \<and>
   outcome (evaluatePostfix exact_arith [numberToken 7] []) = Inr 7 \<and>
   evaluatePostfix_loop exact_arith [numberToken 1, numberToken 2] [] []
     = ([PushOnto 1, PushOnto 2], Inr [2, 1]) \<and>
   outcome (evaluatePostfix exact_arith [numberToken 1, numberToken 2] []) = Inl MalformedExpression \<and>
   evaluatePostfix_loop exact_arith [] [] [] = ([], Inr []) \<and>
   outcome (evaluatePostfix exact_arith [] []) = Inl MalformedExpression \<and>
   d_stod exact_arith ''1'' = Some 1 \<and> d_stod exact_arith ''2'' = Some 2 \<and>
   outcome (evaluateExpr exact_arith ''1 2'') = Inl MalformedExpression"
  using evaluatePostfix_final_stack [of exact_arith "[numberToken 7]" "[]" "[PushOnto 7]" "[7]" exact_arith 1 2]
    evaluatePostfix_final_stack [of exact_arith "[numberToken 1, numberToken 2]" "[]" "[PushOnto 1, PushOnto 2]" "[2, 1]" exact_arith 1 2]
    evaluatePostfix_final_stack [of exact_arith "[]" "[]" "[]" "[]" exact_arith 1 2]
  by (simp add: token_defs exact_defs char_defs)

section \<open>Parentheses in toPostfix\<close>

lemma countType_simps [simp]:
  "countType ty [] = 0"
  "countType ty (t # ts) = (if type t = ty then Suc (countType ty ts) else countType ty ts)"
  by (simp_all add: countType_def)

lemma popOperators_count:
  "popOperators tok out st = (out', st') \<Longrightarrow> countType PAREN_LEFT st' = countType PAREN_LEFT st"
  by (induction tok out st rule: popOperators.induct) (auto split: if_splits)

lemma popOperators_inv:
  "popOperators tok out st = (out', st') \<Longrightarrow> list_all outputToken out \<Longrightarrow> list_all stackToken st
   \<Longrightarrow> list_all outputToken out' \<and> list_all stackToken st'"
  by (induction tok out st rule: popOperators.induct) (auto simp: outputToken_def split: if_splits)

lemma popUntilLeftParen_count:
  "popUntilLeftParen out st = (out', st') \<Longrightarrow>
     (st' = [] \<longleftrightarrow> countType PAREN_LEFT st = 0) \<and>
     (st' \<noteq> [] \<longrightarrow> Suc (countType PAREN_LEFT (tl st')) = countType PAREN_LEFT st)"
  by (induction out st rule: popUntilLeftParen.induct) (auto split: if_splits)

lemma popUntilLeftParen_inv:
  "popUntilLeftParen out st = (out', st') \<Longrightarrow> list_all outputToken out \<Longrightarrow> list_all stackToken st
   \<Longrightarrow> list_all outputToken out' \<and> list_all stackToken st' \<and> list_all stackToken (tl st')"
  by (induction out st rule: popUntilLeftParen.induct)
     (auto simp: outputToken_def stackToken_def split: if_splits)

lemma drainStack_failure:
  "failure (drainStack out st) = (if 0 < countType PAREN_LEFT st then Some UnclosedLeftParen else None)"
  by (induction out st rule: drainStack.induct) (auto simp: failure_def)

lemma drainStack_inv:
  "drainStack out st = Inr r \<Longrightarrow> list_all outputToken out \<Longrightarrow> list_all stackToken st
   \<Longrightarrow> list_all outputToken r"
  by (induction out st rule: drainStack.induct)
     (auto simp: outputToken_def stackToken_def split: if_splits)

lemma toPostfix_loop_failure:
  "failure (toPostfix_loop ts out st) = parenScan (countType PAREN_LEFT st) ts"
proof (induction ts arbitrary: out st)
  case Nil
  show ?case by (simp add: drainStack_failure)
next
  case (Cons t ts)
  show ?case
  proof (cases "type t")
    case NUMBER
    then show ?thesis using Cons.IH by simp
  next
    case OPERATOR
    obtain out' st' where p: "popOperators t out st = (out', st')" by force
    from popOperators_count [OF p] OPERATOR p show ?thesis
      using Cons.IH [of out' "t # st'"] by simp
  next
    case PAREN_LEFT
    then show ?thesis using Cons.IH [of out "t # st"] by simp
  next
    case PAREN_RIGHT
    obtain out' st' where p: "popUntilLeftParen out st = (out', st')" by force
    show ?thesis
    proof (cases "st' = []")
      case True
      with popUntilLeftParen_count [OF p] PAREN_RIGHT p show ?thesis
        by (simp add: failure_def)
    next
      case False
      with popUntilLeftParen_count [OF p]
      have "0 < countType PAREN_LEFT st" "countType PAREN_LEFT (tl st') = countType PAREN_LEFT st - 1"
        by auto
      with False PAREN_RIGHT p show ?thesis
        using Cons.IH [of out' "tl st'"] by simp
    qed
  qed
qed

lemma toPostfix_loop_inv:
  "toPostfix_loop ts out st = Inr r \<Longrightarrow> list_all outputToken out \<Longrightarrow> list_all stackToken st
   \<Longrightarrow> list_all outputToken r"
proof (induction ts arbitrary: out st)
  case Nil
  then show ?case by (simp add: drainStack_inv)
next
  case (Cons t ts)
  show ?case
  proof (cases "type t")
    case NUMBER
    then have "outputToken t" by (simp add: outputToken_def)
    with Cons.prems NUMBER show ?thesis
      using Cons.IH [of "out @ [t]" st] by simp
  next
    case OPERATOR
    then have t: "stackToken t" by (simp add: stackToken_def)
    obtain out' st' where p: "popOperators t out st = (out', st')" by force
    from popOperators_inv [OF p] Cons.prems
    have "list_all outputToken out'" "list_all stackToken (t # st')" using t by simp_all
    moreover from Cons.prems(1) OPERATOR p have "toPostfix_loop ts out' (t # st') = Inr r" by simp
    ultimately show ?thesis using Cons.IH [of out' "t # st'"] by blast
  next
    case PAREN_LEFT
    then have "stackToken t" by (simp add: stackToken_def)
    with Cons.prems PAREN_LEFT show ?thesis
      using Cons.IH [of out "t # st"] by simp
  next
    case PAREN_RIGHT
    obtain out' st' where p: "popUntilLeftParen out st = (out', st')" by force
    from popUntilLeftParen_inv [OF p] Cons.prems
    have "list_all outputToken out'" "list_all stackToken (tl st')" by simp_all
    moreover from Cons.prems(1) PAREN_RIGHT p have "toPostfix_loop ts out' (tl st') = Inr r"
      by (simp split: if_splits)
    ultimately show ?thesis using Cons.IH [of out' "tl st'"] by blast
  qed
qed

lemma ex_le_Suc: "(\<exists>n\<le>Suc k. P n) \<longleftrightarrow> P 0 \<or> (\<exists>m\<le>k. P (Suc m))"
proof
  assume "\<exists>n\<le>Suc k. P n"
  then obtain n where n: "n \<le> Suc k" "P n" by blast
  show "P 0 \<or> (\<exists>m\<le>k. P (Suc m))"
  proof (cases n)
    case 0
    with n show ?thesis by simp
  next
    case (Suc m)
    with n show ?thesis by auto
  qed
next
  assume "P 0 \<or> (\<exists>m\<le>k. P (Suc m))"
  then show "\<exists>n\<le>Suc k. P n" by auto
qed

lemma parenScan_unexpected:
  "parenScan d ts = Some UnexpectedRightParen \<longleftrightarrow>
     (\<exists>n\<le>length ts. d + countType PAREN_LEFT (take n ts) < countType PAREN_RIGHT (take n ts))"
proof (induction ts arbitrary: d)
  case Nil
  show ?case by simp
next
  case (Cons t ts)
  show ?case
  proof (cases "type t")
    case PAREN_LEFT
    then show ?thesis using Cons.IH [of "d + 1"] by (simp add: ex_le_Suc)
  next
    case PAREN_RIGHT
    show ?thesis
    proof (cases "d = 0")
      case True
      have "countType PAREN_LEFT (take 0 ts) < Suc (countType PAREN_RIGHT (take 0 ts))" by simp
      then have "\<exists>m\<le>length ts. countType PAREN_LEFT (take m ts) < Suc (countType PAREN_RIGHT (take m ts))"
        by blast
      with True PAREN_RIGHT show ?thesis by (simp add: ex_le_Suc)
    next
      case False
      then have "\<And>a b. (d - 1 + a < b) = (d + a < Suc b)" by auto
      with False PAREN_RIGHT show ?thesis using Cons.IH [of "d - 1"] by (simp add: ex_le_Suc)
    qed
  next
    case NUMBER
    then show ?thesis using Cons.IH [of d] by (simp add: ex_le_Suc)
  next
    case OPERATOR
    then show ?thesis using Cons.IH [of d] by (simp add: ex_le_Suc)
  qed
qed

lemma parenScan_cases:
  "parenScan d ts = None \<or> parenScan d ts = Some UnexpectedRightParen \<or>
   parenScan d ts = Some UnclosedLeftParen"
  by (induction d ts rule: parenScan.induct) auto

lemma parenScan_none:
  "parenScan d ts = None \<longleftrightarrow>
     \<not> (\<exists>n\<le>length ts. d + countType PAREN_LEFT (take n ts) < countType PAREN_RIGHT (take n ts)) \<and>
     d + countType PAREN_LEFT ts = countType PAREN_RIGHT ts"
proof (induction ts arbitrary: d)
  case Nil
  show ?case by simp
next
  case (Cons t ts)
  show ?case
  proof (cases "type t")
    case PAREN_LEFT
    then show ?thesis using Cons.IH [of "d + 1"] by (simp add: ex_le_Suc)
  next
    case PAREN_RIGHT
    show ?thesis
    proof (cases "d = 0")
      case True
      have "countType PAREN_LEFT (take 0 ts) < Suc (countType PAREN_RIGHT (take 0 ts))" by simp
      then have "\<exists>m\<le>length ts. countType PAREN_LEFT (take m ts) < Suc (countType PAREN_RIGHT (take m ts))"
        by blast
      with True PAREN_RIGHT show ?thesis by (simp add: ex_le_Suc)
    next
      case False
      then have "\<And>a b. (d - 1 + a < b) = (d + a < Suc b)" "\<And>a b. (d - 1 + a = b) = (d + a = Suc b)"
        by auto
      with False PAREN_RIGHT show ?thesis using Cons.IH [of "d - 1"] by (simp add: ex_le_Suc)
    qed
  next
    case NUMBER
    then show ?thesis using Cons.IH [of d] by (simp add: ex_le_Suc)
  next
    case OPERATOR
    then show ?thesis using Cons.IH [of d] by (simp add: ex_le_Suc)
  qed
qed

lemma failure_Some: "failure r = Some e \<longleftrightarrow> r = Inl e"
  by (cases r) (simp_all add: failure_def)

lemma failure_None: "failure r = None \<longleftrightarrow> (\<exists>p. r = Inr p)"
  by (cases r) (simp_all add: failure_def)

lemma toPostfix_failure: "failure (toPostfix tokens) = parenScan 0 tokens"
  by (simp add: toPostfix_def toPostfix_loop_failure)

text \<open>
  C6. \<^verbatim>\<open>toPostfix\<close> fails with the unexpected-\<^verbatim>\<open>)\<close> error exactly when some
  prefix of the tokens has more right than left parentheses (a right parenthesis
  arrives and the stack holds no left one); with the unclosed-\<^verbatim>\<open>(\<close> error exactly
  when no prefix has, and the whole sequence has more left than right parentheses (a
  left one remains on the stack at the end); and it returns a postfix sequence
  exactly on the remaining sequences, those with balanced parentheses. There is no
  other failure.
\<close>

theorem toPostfix_paren_errors:
  "(toPostfix tokens = Inl UnexpectedRightParen \<longleftrightarrow>
      (\<exists>n\<le>length tokens.
         countType PAREN_LEFT (take n tokens) < countType PAREN_RIGHT (take n tokens))) \<and>
   (toPostfix tokens = Inl UnclosedLeftParen \<longleftrightarrow>
      (\<forall>n\<le>length tokens.
         countType PAREN_RIGHT (take n tokens) \<le> countType PAREN_LEFT (take n tokens)) \<and>
      countType PAREN_RIGHT tokens < countType PAREN_LEFT tokens) \<and>
   ((\<exists>postfix. toPostfix tokens = Inr postfix) \<longleftrightarrow>
      (\<forall>n\<le>length tokens.
         countType PAREN_RIGHT (take n tokens) \<le> countType PAREN_LEFT (take n tokens)) \<and>
      countType PAREN_RIGHT tokens = countType PAREN_LEFT tokens) \<and>
   (type tok = PAREN_RIGHT \<longrightarrow> countType PAREN_LEFT opStack = 0 \<longrightarrow>
      toPostfix_loop (tok # rest) output opStack = Inl UnexpectedRightParen) \<and>
   (0 < countType PAREN_LEFT opStack \<longrightarrow>
      toPostfix_loop [] output opStack = Inl UnclosedLeftParen)"
proof -
  let ?U = "\<exists>n\<le>length tokens.
         countType PAREN_LEFT (take n tokens) < countType PAREN_RIGHT (take n tokens)"
  let ?B = "\<forall>n\<le>length tokens.
         countType PAREN_RIGHT (take n tokens) \<le> countType PAREN_LEFT (take n tokens)"
  have nU: "(\<not> ?U) = ?B" by (auto simp: not_less)
  have pu: "parenScan 0 tokens = Some UnexpectedRightParen \<longleftrightarrow> ?U"
    using parenScan_unexpected [of 0 tokens] by simp
  have "parenScan 0 tokens = None \<longleftrightarrow>
      \<not> ?U \<and> countType PAREN_LEFT tokens = countType PAREN_RIGHT tokens"
    using parenScan_none [of 0 tokens] by simp
  then have pn: "parenScan 0 tokens = None \<longleftrightarrow>
      ?B \<and> countType PAREN_RIGHT tokens = countType PAREN_LEFT tokens"
    by (simp only: nU eq_commute [of "countType PAREN_LEFT tokens"])
  have u: "toPostfix tokens = Inl UnexpectedRightParen \<longleftrightarrow> ?U"
    using pu by (simp only: failure_Some [symmetric] toPostfix_failure)
  have n: "(\<exists>postfix. toPostfix tokens = Inr postfix) \<longleftrightarrow>
      ?B \<and> countType PAREN_RIGHT tokens = countType PAREN_LEFT tokens"
    using pn by (simp only: failure_None [symmetric] toPostfix_failure)
  have total: "countType PAREN_RIGHT tokens \<le> countType PAREN_LEFT tokens" if b: ?B
  proof -
    from b have "countType PAREN_RIGHT (take (length tokens) tokens)
        \<le> countType PAREN_LEFT (take (length tokens) tokens)" by blast
    then show ?thesis by simp
  qed
  have c: "toPostfix tokens = Inl UnclosedLeftParen \<longleftrightarrow>
      ?B \<and> countType PAREN_RIGHT tokens < countType PAREN_LEFT tokens"
  proof -
    have "toPostfix tokens = Inl UnclosedLeftParen \<longleftrightarrow> parenScan 0 tokens = Some UnclosedLeftParen"
      by (simp only: failure_Some [symmetric] toPostfix_failure)
    also have "\<dots> \<longleftrightarrow> parenScan 0 tokens \<noteq> None \<and> parenScan 0 tokens \<noteq> Some UnexpectedRightParen"
      using parenScan_cases [of 0 tokens] by auto
    also have "\<dots> \<longleftrightarrow> ?B \<and> countType PAREN_RIGHT tokens \<noteq> countType PAREN_LEFT tokens"
      unfolding pn pu nU [symmetric] by blast
    also have "\<dots> \<longleftrightarrow> ?B \<and> countType PAREN_RIGHT tokens < countType PAREN_LEFT tokens"
      using total by (cases ?B) auto
    finally show ?thesis .
  qed
  have s1: "type tok = PAREN_RIGHT \<longrightarrow> countType PAREN_LEFT opStack = 0 \<longrightarrow>
      toPostfix_loop (tok # rest) output opStack = Inl UnexpectedRightParen"
  proof (intro impI)
    assume a: "type tok = PAREN_RIGHT" "countType PAREN_LEFT opStack = 0"
    obtain out' st' where p: "popUntilLeftParen output opStack = (out', st')" by force
    from popUntilLeftParen_count [OF p] a have "st' = []" by simp
    with a p show "toPostfix_loop (tok # rest) output opStack = Inl UnexpectedRightParen" by simp
  qed
  have s2: "0 < countType PAREN_LEFT opStack \<longrightarrow>
      toPostfix_loop [] output opStack = Inl UnclosedLeftParen"
    using drainStack_failure [of "output" opStack]
    by (auto simp add: failure_Some [symmetric])
  from u c n s1 s2 show ?thesis by blast
qed

theorem toPostfix_paren_errors_witness:
  "toPostfix [rightParenToken exact_arith] = Inl UnexpectedRightParen \<and>
   countType PAREN_LEFT (take 1 [rightParenToken exact_arith])
     < countType PAREN_RIGHT (take 1 [rightParenToken exact_arith]) \<and>
   toPostfix [leftParenToken exact_arith, numberToken 7] = Inl UnclosedLeftParen \<and>
   countType PAREN_RIGHT [leftParenToken exact_arith, numberToken 7]
     < countType PAREN_LEFT [leftParenToken exact_arith, numberToken 7] \<and>
   toPostfix [leftParenToken exact_arith, numberToken 7, rightParenToken exact_arith]
     = Inr [numberToken 7] \<and>
   type (rightParenToken exact_arith) = PAREN_RIGHT \<and>
   countType PAREN_LEFT [operatorToken exact_arith CHR ''+''] = 0 \<and>
   toPostfix_loop [rightParenToken exact_arith, numberToken 7] [numberToken 1]
       [operatorToken exact_arith CHR ''+''] = Inl UnexpectedRightParen \<and>
   0 < countType PAREN_LEFT [operatorToken exact_arith CHR ''+'', leftParenToken exact_arith] \<and>
   toPostfix_loop [] [numberToken 1] [operatorToken exact_arith CHR ''+'', leftParenToken exact_arith]
     = Inl UnclosedLeftParen"
  using toPostfix_paren_errors [of "[rightParenToken exact_arith]" "rightParenToken exact_arith"
      "[operatorToken exact_arith CHR ''+'']" "[numberToken 7]" "[numberToken 1]"]
    toPostfix_paren_errors [of "[leftParenToken exact_arith, numberToken 7]" "rightParenToken exact_arith"
      "[operatorToken exact_arith CHR ''+'', leftParenToken exact_arith]" "[numberToken 7]" "[numberToken 1]"]
    toPostfix_paren_errors [of "[leftParenToken exact_arith, numberToken 7, rightParenToken exact_arith]"
      "rightParenToken exact_arith"
      "[operatorToken exact_arith CHR ''+'', leftParenToken exact_arith]" "[numberToken 7]" "[numberToken 1]"]
  by (simp add: token_defs toPostfix_def)

text \<open>
  C10. A postfix sequence that \<^verbatim>\<open>toPostfix\<close> returns holds tokens of type
  \<^verbatim>\<open>NUMBER\<close> and \<^verbatim>\<open>OPERATOR\<close> only. \<^verbatim>\<open>evaluatePostfix\<close> has no branch for a
  parenthesis token: it would leave the stack and the output as they are and go on.
\<close>

theorem toPostfix_output_has_no_parens:
  "(toPostfix tokens = Inr postfix \<longrightarrow>
      (\<forall>t\<in>set postfix. type t = NUMBER \<or> type t = OPERATOR)) \<and>
   (type tok = PAREN_LEFT \<or> type tok = PAREN_RIGHT \<longrightarrow>
      evaluatePostfix_loop A (tok # rest) st out = evaluatePostfix_loop A rest st out)"
proof (intro conjI impI)
  assume "toPostfix tokens = Inr postfix"
  then have "toPostfix_loop tokens [] [] = Inr postfix" by (simp add: toPostfix_def)
  then have "list_all outputToken postfix" by (rule toPostfix_loop_inv) simp_all
  then show "\<forall>t\<in>set postfix. type t = NUMBER \<or> type t = OPERATOR"
    by (simp add: list_all_iff outputToken_def)
next
  assume "type tok = PAREN_LEFT \<or> type tok = PAREN_RIGHT"
  then show "evaluatePostfix_loop A (tok # rest) st out = evaluatePostfix_loop A rest st out"
    by auto
qed

theorem toPostfix_output_has_no_parens_witness:
  "toPostfix [leftParenToken exact_arith, numberToken 1, operatorToken exact_arith CHR ''+'',
              numberToken 2, rightParenToken exact_arith]
     = Inr [numberToken 1, numberToken 2, operatorToken exact_arith CHR ''+''] \<and>
   type (numberToken (1::real)) = NUMBER \<and> type (numberToken (2::real)) = NUMBER \<and>
   type (operatorToken exact_arith CHR ''+'') = OPERATOR \<and>
   type (leftParenToken exact_arith) = PAREN_LEFT \<and>
   evaluatePostfix_loop exact_arith [leftParenToken exact_arith, numberToken 7] [] []
     = evaluatePostfix_loop exact_arith [numberToken 7] [] []"
  using toPostfix_output_has_no_parens [of
      "[leftParenToken exact_arith, numberToken 1, operatorToken exact_arith CHR ''+'',
        numberToken 2, rightParenToken exact_arith]"
      "[numberToken 1, numberToken 2, operatorToken exact_arith CHR ''+'']"
      "leftParenToken exact_arith" exact_arith "[numberToken 7]" "[]" "[]"]
  by (simp add: token_defs toPostfix_def precedence_def isRightAssociative_def)

section \<open>The tokenizer\<close>

lemma isdigit_other:
  "isdigit c \<Longrightarrow> \<not> isspace c \<and> c \<noteq> CHR ''-'' \<and> c \<noteq> CHR ''.''"
  by (auto simp: isdigit_def isspace_def)

lemma dot_other: "\<not> isspace (CHR ''.'') \<and> \<not> isdigit (CHR ''.'') \<and> \<not> isOperatorChar (CHR ''.'')"
  by (simp add: isdigit_def isspace_def isOperatorChar_def)

lemma isOperatorChar_other:
  "isOperatorChar c \<Longrightarrow> \<not> isspace c \<and> \<not> isdigit c \<and> c \<noteq> CHR ''.''"
  by (auto simp: isdigit_def isspace_def isOperatorChar_def)

lemma isspace_other:
  "isspace c \<Longrightarrow> \<not> isdigit c \<and> c \<noteq> CHR ''.'' \<and> c \<noteq> CHR ''-'' \<and> \<not> isOperatorChar c"
  by (auto simp: isdigit_def isspace_def isOperatorChar_def)

lemma scanNumber_run:
  "list_all numberChar run \<Longrightarrow> endsLiteral rest \<Longrightarrow>
   scanNumber i (run @ rest) h acc =
     (if 1 < (if h then 1 else 0) + count_list run (CHR ''.'') then Inl MultipleDecimalPoints
      else Inr (i + length run, acc @ run, rest))"
proof (induction run arbitrary: i h acc)
  case Nil
  then show ?case by (cases rest) (simp_all add: endsLiteral_def numberChar_def)
next
  case (Cons c run)
  from Cons.prems have "numberChar c" and run: "list_all numberChar run"
    by simp_all
  then have c: "isdigit c \<or> c = CHR ''.''" by (simp add: numberChar_def)
  show ?case
  proof (cases "c = CHR ''.''")
    case True
    show ?thesis
    proof (cases h)
      case True
      with \<open>c = CHR ''.''\<close> show ?thesis by simp
    next
      case False
      with \<open>c = CHR ''.''\<close> show ?thesis
        using Cons.IH [OF run Cons.prems(2), of "i + 1" True "acc @ [c]"] by simp
    qed
  next
    case False
    with c show ?thesis
      using Cons.IH [OF run Cons.prems(2), of "i + 1" h "acc @ [c]"] by simp
  qed
qed

lemma tokenize_loop_spaces:
  "list_all isspace w \<Longrightarrow> tokenize_loop A i (w @ cs) tokens = tokenize_loop A (i + length w) cs tokens"
  by (induction w arbitrary: i) simp_all

lemma tokenize_loop_number:
  assumes "startsLiteral run" "list_all numberChar run" "endsLiteral rest"
  shows "tokenize_loop A i (run @ rest) tokens =
     (if 1 < count_list run (CHR ''.'') then Inl MultipleDecimalPoints
      else case d_stod A run of
             None \<Rightarrow> Inl StodOutOfRange
           | Some v \<Rightarrow> tokenize_loop A (i + length run) rest (tokens @ [numberToken v]))"
proof -
  from assms(1) obtain c cs where run: "run = c # cs"
    and start: "isdigit c \<or> (c = CHR ''.'' \<and> cs \<noteq> [] \<and> isdigit (hd cs))"
    by (cases run) (simp_all add: startsLiteral_def)
  from start have nsp: "\<not> isspace c" and nm: "c \<noteq> CHR ''-''"
    using isdigit_other [of c] dot_other by auto
  from start have start': "isdigit c \<or> (c = CHR ''.'' \<and> cs @ rest \<noteq> [] \<and> isdigit (hd (cs @ rest)))"
    by auto
  have scan: "scanNumber i (c # cs @ rest) False [] =
     (if 1 < count_list run (CHR ''.'') then Inl MultipleDecimalPoints
      else Inr (i + length run, run, rest))"
    using scanNumber_run [OF assms(2) assms(3), of i False "[]"] by (simp add: run)
  have step: "tokenize_loop A i (c # cs @ rest) tokens =
      (case scanNumber i (c # cs @ rest) False [] of
          Inl e \<Rightarrow> Inl e
        | Inr (i', numStr, rest') \<Rightarrow>
            (case d_stod A numStr of
               None \<Rightarrow> Inl StodOutOfRange
             | Some v \<Rightarrow> tokenize_loop A i' rest' (tokens @ [numberToken v])))"
    by (simp only: tokenize_loop.simps nsp nm start' if_True if_False simp_thms)
  have "tokenize_loop A i (c # cs @ rest) tokens =
     (if 1 < count_list run (CHR ''.'') then Inl MultipleDecimalPoints
      else case d_stod A run of
             None \<Rightarrow> Inl StodOutOfRange
           | Some v \<Rightarrow> tokenize_loop A (i + length run) rest (tokens @ [numberToken v]))"
    unfolding step scan by simp
  then show ?thesis by (simp only: run append_Cons)
qed

lemma tokenize_loop_operator:
  assumes "isOperatorChar c"
    and "c = CHR ''-'' \<Longrightarrow> i \<noteq> 0 \<and> tokens \<noteq> [] \<and> type (last tokens) \<noteq> OPERATOR \<and> type (last tokens) \<noteq> PAREN_LEFT"
  shows "tokenize_loop A i (c # cs) tokens = tokenize_loop A (i + 1) cs (tokens @ [operatorToken A c])"
  using assms isOperatorChar_other [of c] by auto

lemma endsLiteral_spaces_operator:
  "list_all isspace w \<Longrightarrow> isOperatorChar c \<Longrightarrow> endsLiteral (w @ c # cs)"
  using isOperatorChar_other [of c]
  by (cases w) (auto simp: endsLiteral_def numberChar_def dest: isspace_other)

lemma isLiteral_nonempty: "isLiteral s \<Longrightarrow> s \<noteq> []"
  by (auto simp: isLiteral_def startsLiteral_def)

lemma tokenize_binary:
  assumes a: "isLiteral a" and b: "isLiteral b"
    and w1: "list_all isspace w1" and w2: "list_all isspace w2"
    and c: "isBinaryOperatorChar c"
    and x: "d_stod A a = Some x" and y: "d_stod A b = Some y"
  shows "tokenize A (a @ w1 @ [c] @ w2 @ b) = Inr [numberToken x, operatorToken A c, numberToken y]"
proof -
  from c have oc: "isOperatorChar c" by (auto simp: isBinaryOperatorChar_def isOperatorChar_def)
  from a have a1: "startsLiteral a" "list_all numberChar a" "\<not> 1 < count_list a (CHR ''.'')"
    by (auto simp: isLiteral_def)
  from b have b1: "startsLiteral b" "list_all numberChar b" "\<not> 1 < count_list b (CHR ''.'')"
    by (auto simp: isLiteral_def)
  have e1: "endsLiteral (w1 @ c # w2 @ b)" using w1 oc by (rule endsLiteral_spaces_operator)
  have e2: "endsLiteral []" by (simp add: endsLiteral_def)
  have "tokenize A (a @ w1 @ [c] @ w2 @ b) = tokenize_loop A 0 (a @ (w1 @ c # w2 @ b)) []"
    by (simp add: tokenize_def)
  also have "\<dots> = tokenize_loop A (0 + length a) (w1 @ c # w2 @ b) ([] @ [numberToken x])"
    using tokenize_loop_number [OF a1(1) a1(2) e1, of A 0 "[]"] a1(3) x by simp
  also have "\<dots> = tokenize_loop A (length a + length w1) (c # w2 @ b) [numberToken x]"
    using tokenize_loop_spaces [OF w1, of A "length a" "c # w2 @ b" "[numberToken x]"] by simp
  also have "\<dots> = tokenize_loop A (length a + length w1 + 1) (w2 @ b)
                      ([numberToken x] @ [operatorToken A c])"
  proof (rule tokenize_loop_operator [OF oc])
    from isLiteral_nonempty [OF a]
    show "length a + length w1 \<noteq> 0 \<and> [numberToken x] \<noteq> [] \<and>
        type (last [numberToken x]) \<noteq> OPERATOR \<and> type (last [numberToken x]) \<noteq> PAREN_LEFT"
      by (simp add: numberToken_def)
  qed
  also have "\<dots> = tokenize_loop A (length a + length w1 + 1 + length w2) (b @ [])
                      [numberToken x, operatorToken A c]"
    using tokenize_loop_spaces [OF w2, of A "length a + length w1 + 1" b
        "[numberToken x, operatorToken A c]"] by simp
  also have "\<dots> = tokenize_loop A (length a + length w1 + 1 + length w2 + length b) []
                      ([numberToken x, operatorToken A c] @ [numberToken y])"
    using tokenize_loop_number [OF b1(1) b1(2) e2, of A "length a + length w1 + 1 + length w2"
        "[numberToken x, operatorToken A c]"] b1(3) y by simp
  finally show ?thesis by simp
qed

text \<open>
  C1. For literals \<open>a\<close> and \<open>b\<close> that \<^verbatim>\<open>std::stod\<close> converts, to \<open>x\<close> and \<open>y\<close>,
  and a binary operator \<^verbatim>\<open>+ - * / ^\<close>, with or without white space around the
  operator, the expression evaluates to the operator applied to \<open>x\<close> and \<open>y\<close>;
  division by a \<open>y\<close> that compares equal to zero fails with the division-by-zero
  error instead. The restriction to literals that \<^verbatim>\<open>std::stod\<close> converts is needed:
  see the literal below, which is out of the range of a double.
\<close>

theorem binary_expression_value:
  assumes "isLiteral a" and "isLiteral b"
    and "list_all isspace w1" and "list_all isspace w2"
    and "isBinaryOperatorChar c"
    and "d_stod A a = Some x" and "d_stod A b = Some y"
  shows "outcome (evaluateExpr A (a @ w1 @ [c] @ w2 @ b)) =
     (if c = CHR ''/'' \<and> d_is_zero A y then Inl DivisionByZero
      else Inr (if c = CHR ''+'' then d_add A x y
                else if c = CHR ''-'' then d_sub A x y
                else if c = CHR ''*'' then d_mul A x y
                else if c = CHR ''/'' then d_div A x y
                else d_pow A x y))"
proof -
  have t: "tokenize A (a @ w1 @ [c] @ w2 @ b) = Inr [numberToken x, operatorToken A c, numberToken y]"
    using assms by (rule tokenize_binary)
  from assms(5) have p: "toPostfix [numberToken x, operatorToken A c, numberToken y]
      = Inr [numberToken x, numberToken y, operatorToken A c]"
    by (auto simp: isBinaryOperatorChar_def toPostfix_def token_defs)
  from assms(5) have e: "snd (evaluatePostfix A [numberToken x, numberToken y, operatorToken A c] out) =
     (if c = CHR ''/'' \<and> d_is_zero A y then Inl DivisionByZero
      else Inr (if c = CHR ''+'' then d_add A x y
                else if c = CHR ''-'' then d_sub A x y
                else if c = CHR ''*'' then d_mul A x y
                else if c = CHR ''/'' then d_div A x y
                else d_pow A x y))" for out
    by (auto simp: isBinaryOperatorChar_def evaluatePostfix_def token_defs applyOperation_def)
  show ?thesis
    by (simp only: evaluateExpr_def outcome_def t p Let_def sum.case e)
qed

theorem binary_expression_value_witness:
  "isLiteral ''7.5'' \<and> isLiteral ''.25'' \<and> list_all isspace '' '' \<and> list_all isspace [] \<and>
   isBinaryOperatorChar (CHR ''-'') \<and> isBinaryOperatorChar (CHR ''/'') \<and>
   d_stod exact_arith ''7.5'' = Some 7.5 \<and> d_stod exact_arith ''.25'' = Some 0.25 \<and>
   outcome (evaluateExpr exact_arith ''7.5 -.25'') = Inr 7.25 \<and>
   outcome (evaluateExpr exact_arith ''7.5/.25'') = Inr 30 \<and>
   isLiteral ''0'' \<and> d_stod exact_arith ''0'' = Some 0 \<and>
   outcome (evaluateExpr exact_arith ''7.5 / 0'') = Inl DivisionByZero"
  using binary_expression_value [of "''7.5''" "''.25''" "'' ''" "[]" "CHR ''-''" exact_arith "7.5" "0.25"]
    binary_expression_value [of "''7.5''" "''.25''" "[]" "[]" "CHR ''/''" exact_arith "7.5" "0.25"]
    binary_expression_value [of "''7.5''" "''0''" "'' ''" "'' ''" "CHR ''/''" exact_arith "7.5" 0]
  by (simp add: isLiteral_def startsLiteral_def numberChar_def isBinaryOperatorChar_def
      char_defs exact_defs)

lemma big_literal_out_of_range:
  "ranged_stod ''200000000000000000000000000000000000000000000000000000000000000000000000000000000000000000000000000000000000000000000000000000000000000000000000000000000000000000000000000000000000000000000000000000000000000000000000000000000000000000000000000000000000000000000000000000000000000000000000000000000000000000000'' = None"
  by (simp add: ranged_stod_def exact_stod_def digitsValue_def isdigit_def)

lemma big_literal_shape:
  "startsLiteral ''200000000000000000000000000000000000000000000000000000000000000000000000000000000000000000000000000000000000000000000000000000000000000000000000000000000000000000000000000000000000000000000000000000000000000000000000000000000000000000000000000000000000000000000000000000000000000000000000000000000000000000000'' \<and> list_all numberChar ''200000000000000000000000000000000000000000000000000000000000000000000000000000000000000000000000000000000000000000000000000000000000000000000000000000000000000000000000000000000000000000000000000000000000000000000000000000000000000000000000000000000000000000000000000000000000000000000000000000000000000000000'' \<and> count_list ''200000000000000000000000000000000000000000000000000000000000000000000000000000000000000000000000000000000000000000000000000000000000000000000000000000000000000000000000000000000000000000000000000000000000000000000000000000000000000000000000000000000000000000000000000000000000000000000000000000000000000000000'' (CHR ''.'') = 0"
  by (simp add: startsLiteral_def numberChar_def isdigit_def)

text \<open>
  C1, as stated for every pair of literals, fails: the literal 2 followed by 308
  zeros has the value \<open>2 * 10 ^ 308\<close>, beyond the largest double, and
  \<^verbatim>\<open>std::stod\<close> throws \<^verbatim>\<open>std::out_of_range\<close> on it. Adding 1 to it then ends
  with that exception, which is neither a value nor the division-by-zero error.
\<close>

theorem binary_expression_value_counterexample:
  "isLiteral ''200000000000000000000000000000000000000000000000000000000000000000000000000000000000000000000000000000000000000000000000000000000000000000000000000000000000000000000000000000000000000000000000000000000000000000000000000000000000000000000000000000000000000000000000000000000000000000000000000000000000000000000'' \<and> isLiteral ''1'' \<and> isBinaryOperatorChar (CHR ''+'') \<and>
   ranged_stod ''1'' = Some 1 \<and>
   outcome (evaluateExpr ranged_arith (''200000000000000000000000000000000000000000000000000000000000000000000000000000000000000000000000000000000000000000000000000000000000000000000000000000000000000000000000000000000000000000000000000000000000000000000000000000000000000000000000000000000000000000000000000000000000000000000000000000000000000000000'' @ ''+'' @ ''1'')) = Inl StodOutOfRange"
proof -
  have e: "endsLiteral (''+'' @ ''1'')"
    by (simp add: endsLiteral_def numberChar_def isdigit_def)
  have "tokenize ranged_arith (''200000000000000000000000000000000000000000000000000000000000000000000000000000000000000000000000000000000000000000000000000000000000000000000000000000000000000000000000000000000000000000000000000000000000000000000000000000000000000000000000000000000000000000000000000000000000000000000000000000000000000000000'' @ (''+'' @ ''1'')) = Inl StodOutOfRange"
    using big_literal_shape big_literal_out_of_range
      tokenize_loop_number [of "''200000000000000000000000000000000000000000000000000000000000000000000000000000000000000000000000000000000000000000000000000000000000000000000000000000000000000000000000000000000000000000000000000000000000000000000000000000000000000000000000000000000000000000000000000000000000000000000000000000000000000000000''" "''+'' @ ''1''" ranged_arith 0 "[]"] e
    by (simp only: tokenize_def) (simp add: ranged_arith_def)
  then have "outcome (evaluateExpr ranged_arith (''200000000000000000000000000000000000000000000000000000000000000000000000000000000000000000000000000000000000000000000000000000000000000000000000000000000000000000000000000000000000000000000000000000000000000000000000000000000000000000000000000000000000000000000000000000000000000000000000000000000000000000000'' @ ''+'' @ ''1'')) = Inl StodOutOfRange"
    by (simp only: evaluateExpr_def outcome_def sum.case snd_conv)
  moreover have "isLiteral ''200000000000000000000000000000000000000000000000000000000000000000000000000000000000000000000000000000000000000000000000000000000000000000000000000000000000000000000000000000000000000000000000000000000000000000000000000000000000000000000000000000000000000000000000000000000000000000000000000000000000000000000''"
    using big_literal_shape by (simp only: isLiteral_def) simp
  moreover have "isLiteral ''1'' \<and> isBinaryOperatorChar (CHR ''+'') \<and> ranged_stod ''1'' = Some 1"
    by (simp add: isLiteral_def startsLiteral_def numberChar_def isdigit_def
        isBinaryOperatorChar_def ranged_stod_def exact_stod_def digitsValue_def)
  ultimately show ?thesis by blast
qed

text \<open>
  C8. Where the input from position \<open>i\<close> starts with a digit, or with a point and a
  digit, let \<open>run\<close> be the maximal run of digits and points there (what follows it,
  if anything, is neither). With at most one point in \<open>run\<close> the tokenizer hands
  \<open>run\<close> to \<^verbatim>\<open>std::stod\<close>, appends the number token and goes on behind the run;
  with a second point it fails with the multiple-decimal-points error. The input
  \<^verbatim>\<open>1..2\<close> fails with that error.
\<close>

theorem number_literal_scan:
  "(startsLiteral run \<longrightarrow> list_all numberChar run \<longrightarrow> endsLiteral rest \<longrightarrow>
      tokenize_loop A i (run @ rest) tokens =
        (if 1 < count_list run (CHR ''.'') then Inl MultipleDecimalPoints
         else case d_stod A run of
                None \<Rightarrow> Inl StodOutOfRange
              | Some v \<Rightarrow> tokenize_loop A (i + length run) rest (tokens @ [numberToken v]))) \<and>
   outcome (evaluateExpr A ''1..2'') = Inl MultipleDecimalPoints"
proof (intro conjI impI)
  assume "startsLiteral run" "list_all numberChar run" "endsLiteral rest"
  then show "tokenize_loop A i (run @ rest) tokens =
        (if 1 < count_list run (CHR ''.'') then Inl MultipleDecimalPoints
         else case d_stod A run of
                None \<Rightarrow> Inl StodOutOfRange
              | Some v \<Rightarrow> tokenize_loop A (i + length run) rest (tokens @ [numberToken v]))"
    by (rule tokenize_loop_number)
next
  show "outcome (evaluateExpr A ''1..2'') = Inl MultipleDecimalPoints"
    by (simp add: pipeline_defs char_defs)
qed

theorem number_literal_scan_witness:
  "startsLiteral ''12.5'' \<and> list_all numberChar ''12.5'' \<and> endsLiteral ''+3'' \<and>
   tokenize_loop exact_arith 0 ''12.5+3'' []
     = tokenize_loop exact_arith 4 ''+3'' [numberToken 12.5] \<and>
   startsLiteral ''.5.'' \<and> list_all numberChar ''.5.'' \<and> endsLiteral '' 1'' \<and>
   tokenize_loop exact_arith 0 ''.5. 1'' [] = Inl MultipleDecimalPoints"
  using number_literal_scan [of "''12.5''" "''+3''" exact_arith 0 "[]"]
    number_literal_scan [of "''.5.''" "'' 1''" exact_arith 0 "[]"]
  by (simp add: startsLiteral_def numberChar_def endsLiteral_def char_defs exact_defs token_defs)

lemma scanNumber_append:
  "endsLiteral rest \<Longrightarrow>
   scanNumber i (xs @ rest) h acc =
     (case scanNumber i xs h acc of
        Inl e \<Rightarrow> Inl e
      | Inr (i', n, r) \<Rightarrow> Inr (i', n, r @ rest))"
proof (induction xs arbitrary: i h acc)
  case Nil
  then show ?case by (cases rest) (simp_all add: endsLiteral_def numberChar_def)
next
  case (Cons c xs)
  then show ?case by simp
qed

lemma scanNumber_index:
  "scanNumber i xs h acc = Inr (i', n, r) \<Longrightarrow> i' + length r = i + length xs"
proof (induction xs arbitrary: i h acc)
  case Nil
  then show ?case by simp
next
  case (Cons c xs)
  show ?case
  proof (cases "isdigit c \<or> c = CHR ''.''")
    case True
    with Cons.prems
    have "scanNumber (i + 1) xs (if c = CHR ''.'' then True else h) (acc @ [c]) = Inr (i', n, r)"
      by (simp split: if_splits)
    from Cons.IH [OF this] show ?thesis by simp
  next
    case False
    with Cons.prems show ?thesis by auto
  qed
qed

lemma tokenize_loop_Cons:
  "tokenize_loop A i (c # cs) tokens =
    (if isspace c then tokenize_loop A (i + 1) cs tokens
     else if c = CHR ''-'' \<and> unaryPosition i tokens
       then tokenize_loop A (i + 1) cs (tokens @ [unaryMinusToken A])
     else if numberStart c cs then
       (case scanNumber i (c # cs) False [] of
          Inl e \<Rightarrow> Inl e
        | Inr (i', numStr, rest) \<Rightarrow>
            (case d_stod A numStr of
               None \<Rightarrow> Inl StodOutOfRange
             | Some v \<Rightarrow> tokenize_loop A i' rest (tokens @ [numberToken v])))
     else if isOperatorChar c then tokenize_loop A (i + 1) cs (tokens @ [operatorToken A c])
     else if c = CHR ''('' then tokenize_loop A (i + 1) cs (tokens @ [leftParenToken A])
     else if c = CHR '')'' then tokenize_loop A (i + 1) cs (tokens @ [rightParenToken A])
     else Inl (UnknownCharacter c))"
  unfolding unaryPosition_def numberStart_def by (rule tokenize_loop.simps(2))

lemma tokenize_loop_induct [case_names Nil Space Unary Number Operator Left Right Unknown]:
  assumes "\<And>i tokens. P i [] tokens"
    and "\<And>i c cs tokens. isspace c \<Longrightarrow> P (i + 1) cs tokens \<Longrightarrow> P i (c # cs) tokens"
    and "\<And>i c cs tokens. \<not> isspace c \<Longrightarrow> c = CHR ''-'' \<Longrightarrow> unaryPosition i tokens \<Longrightarrow>
           P (i + 1) cs (tokens @ [unaryMinusToken A]) \<Longrightarrow> P i (c # cs) tokens"
    and "\<And>i c cs tokens. \<not> isspace c \<Longrightarrow> \<not> (c = CHR ''-'' \<and> unaryPosition i tokens) \<Longrightarrow>
           numberStart c cs \<Longrightarrow>
           (\<And>i' numStr rest v. scanNumber i (c # cs) False [] = Inr (i', numStr, rest) \<Longrightarrow>
              d_stod A numStr = Some v \<Longrightarrow> P i' rest (tokens @ [numberToken v])) \<Longrightarrow>
           P i (c # cs) tokens"
    and "\<And>i c cs tokens. \<not> isspace c \<Longrightarrow> \<not> (c = CHR ''-'' \<and> unaryPosition i tokens) \<Longrightarrow>
           \<not> numberStart c cs \<Longrightarrow> isOperatorChar c \<Longrightarrow>
           P (i + 1) cs (tokens @ [operatorToken A c]) \<Longrightarrow> P i (c # cs) tokens"
    and "\<And>i c cs tokens. \<not> isspace c \<Longrightarrow> \<not> (c = CHR ''-'' \<and> unaryPosition i tokens) \<Longrightarrow>
           \<not> numberStart c cs \<Longrightarrow> \<not> isOperatorChar c \<Longrightarrow> c = CHR ''('' \<Longrightarrow>
           P (i + 1) cs (tokens @ [leftParenToken A]) \<Longrightarrow> P i (c # cs) tokens"
    and "\<And>i c cs tokens. \<not> isspace c \<Longrightarrow> \<not> (c = CHR ''-'' \<and> unaryPosition i tokens) \<Longrightarrow>
           \<not> numberStart c cs \<Longrightarrow> \<not> isOperatorChar c \<Longrightarrow> c \<noteq> CHR ''('' \<Longrightarrow> c = CHR '')'' \<Longrightarrow>
           P (i + 1) cs (tokens @ [rightParenToken A]) \<Longrightarrow> P i (c # cs) tokens"
    and "\<And>i c cs tokens. \<not> isspace c \<Longrightarrow> \<not> (c = CHR ''-'' \<and> unaryPosition i tokens) \<Longrightarrow>
           \<not> numberStart c cs \<Longrightarrow> \<not> isOperatorChar c \<Longrightarrow> c \<noteq> CHR ''('' \<Longrightarrow> c \<noteq> CHR '')'' \<Longrightarrow>
           P i (c # cs) tokens"
  shows "P i cs tokens"
proof -
  have "A' = A \<Longrightarrow> P i cs tokens" for A'
  proof (induction A' i cs tokens rule: tokenize_loop.induct)
    case (1 A' i tokens)
    show ?case by (rule assms(1))
  next
    case (2 A' i c cs tokens)
    from "2.prems" have eq: "A' = A" .
    note ih = "2.IH" [unfolded eq, folded unaryPosition_def numberStart_def]
    show ?case
    proof (cases "isspace c")
      case True
      show ?thesis by (rule assms(2) [OF True ih(1) [OF True refl]])
    next
      case ns: False
      show ?thesis
      proof (cases "c = CHR ''-'' \<and> unaryPosition i tokens")
        case True
        then have c1: "c = CHR ''-''" and c2: "unaryPosition i tokens" by simp_all
        show ?thesis by (rule assms(3) [OF ns c1 c2 ih(2) [OF ns True refl]])
      next
        case nu: False
        show ?thesis
        proof (cases "numberStart c cs")
          case True
          show ?thesis
          proof (rule assms(4) [OF ns nu True])
            fix i' numStr rest v
            assume "scanNumber i (c # cs) False [] = Inr (i', numStr, rest)" "d_stod A numStr = Some v"
            then show "P i' rest (tokens @ [numberToken v])"
              using ih(3) [OF ns nu True _ refl refl _ refl] by blast
          qed
        next
          case nn: False
          show ?thesis
          proof (cases "isOperatorChar c")
            case True
            show ?thesis by (rule assms(5) [OF ns nu nn True ih(4) [OF ns nu nn True refl]])
          next
            case no: False
            show ?thesis
            proof (cases "c = CHR ''(''")
              case True
              show ?thesis by (rule assms(6) [OF ns nu nn no True ih(5) [OF ns nu nn no True refl]])
            next
              case nl: False
              show ?thesis
              proof (cases "c = CHR '')''")
                case True
                show ?thesis
                  by (rule assms(7) [OF ns nu nn no nl True ih(6) [OF ns nu nn no nl True refl]])
              next
                case False
                show ?thesis by (rule assms(8) [OF ns nu nn no nl False])
              qed
            qed
          qed
        qed
      qed
    qed
  qed
  then show ?thesis by simp
qed

lemma tokenize_loop_step:
  "isspace c \<Longrightarrow> tokenize_loop A i (c # cs) tokens = tokenize_loop A (i + 1) cs tokens"
  "\<not> isspace c \<Longrightarrow> c = CHR ''-'' \<Longrightarrow> unaryPosition i tokens \<Longrightarrow>
     tokenize_loop A i (c # cs) tokens = tokenize_loop A (i + 1) cs (tokens @ [unaryMinusToken A])"
  "\<not> isspace c \<Longrightarrow> \<not> (c = CHR ''-'' \<and> unaryPosition i tokens) \<Longrightarrow> numberStart c cs \<Longrightarrow>
     tokenize_loop A i (c # cs) tokens =
       (case scanNumber i (c # cs) False [] of
          Inl e \<Rightarrow> Inl e
        | Inr (i', numStr, rest) \<Rightarrow>
            (case d_stod A numStr of
               None \<Rightarrow> Inl StodOutOfRange
             | Some v \<Rightarrow> tokenize_loop A i' rest (tokens @ [numberToken v])))"
  "\<not> isspace c \<Longrightarrow> \<not> (c = CHR ''-'' \<and> unaryPosition i tokens) \<Longrightarrow> \<not> numberStart c cs \<Longrightarrow>
     isOperatorChar c \<Longrightarrow>
     tokenize_loop A i (c # cs) tokens = tokenize_loop A (i + 1) cs (tokens @ [operatorToken A c])"
  "\<not> isspace c \<Longrightarrow> \<not> (c = CHR ''-'' \<and> unaryPosition i tokens) \<Longrightarrow> \<not> numberStart c cs \<Longrightarrow>
     \<not> isOperatorChar c \<Longrightarrow> c = CHR ''('' \<Longrightarrow>
     tokenize_loop A i (c # cs) tokens = tokenize_loop A (i + 1) cs (tokens @ [leftParenToken A])"
  "\<not> isspace c \<Longrightarrow> \<not> (c = CHR ''-'' \<and> unaryPosition i tokens) \<Longrightarrow> \<not> numberStart c cs \<Longrightarrow>
     \<not> isOperatorChar c \<Longrightarrow> c \<noteq> CHR ''('' \<Longrightarrow> c = CHR '')'' \<Longrightarrow>
     tokenize_loop A i (c # cs) tokens = tokenize_loop A (i + 1) cs (tokens @ [rightParenToken A])"
  "\<not> isspace c \<Longrightarrow> \<not> (c = CHR ''-'' \<and> unaryPosition i tokens) \<Longrightarrow> \<not> numberStart c cs \<Longrightarrow>
     \<not> isOperatorChar c \<Longrightarrow> c \<noteq> CHR ''('' \<Longrightarrow> c \<noteq> CHR '')'' \<Longrightarrow>
     tokenize_loop A i (c # cs) tokens = Inl (UnknownCharacter c)"
  by (simp_all only: tokenize_loop_Cons if_True if_False simp_thms)

lemma tokenize_loop_mono:
  "tokenize_loop A i cs tokens = Inr tokens' \<Longrightarrow> length tokens \<le> length tokens'"
proof (induction i cs tokens rule: tokenize_loop_induct [where A = A])
  case (Nil i tokens)
  then show ?case by simp
next
  case (Space i c cs tokens)
  then show ?case by (simp only: tokenize_loop_step(1))
next
  case (Unary i c cs tokens)
  from Unary.prems have "tokenize_loop A (i + 1) cs (tokens @ [unaryMinusToken A]) = Inr tokens'"
    by (simp only: tokenize_loop_step(2) [OF Unary.hyps])
  from Unary.IH [OF this] show ?case by simp
next
  case (Number i c cs tokens)
  from Number.prems obtain i' numStr rest v where
    "scanNumber i (c # cs) False [] = Inr (i', numStr, rest)" "d_stod A numStr = Some v"
    "tokenize_loop A i' rest (tokens @ [numberToken v]) = Inr tokens'"
    unfolding tokenize_loop_step(3) [OF Number.hyps]
    by (auto split: sum.splits option.splits)
  from Number.IH [OF this] show ?case by simp
next
  case (Operator i c cs tokens)
  from Operator.prems have "tokenize_loop A (i + 1) cs (tokens @ [operatorToken A c]) = Inr tokens'"
    by (simp only: tokenize_loop_step(4) [OF Operator.hyps])
  from Operator.IH [OF this] show ?case by simp
next
  case (Left i c cs tokens)
  from Left.prems have "tokenize_loop A (i + 1) cs (tokens @ [leftParenToken A]) = Inr tokens'"
    by (simp only: tokenize_loop_step(5) [OF Left.hyps])
  from Left.IH [OF this] show ?case by simp
next
  case (Right i c cs tokens)
  from Right.prems have "tokenize_loop A (i + 1) cs (tokens @ [rightParenToken A]) = Inr tokens'"
    by (simp only: tokenize_loop_step(6) [OF Right.hyps])
  from Right.IH [OF this] show ?case by simp
next
  case (Unknown i c cs tokens)
  from Unknown.prems show ?case
    by (simp only: tokenize_loop_step(7) [OF Unknown.hyps]) simp
qed

lemma tokenize_loop_empty:
  "tokenize_loop A i cs tokens = Inr tokens' \<Longrightarrow>
     (tokens' = [] \<longleftrightarrow> tokens = [] \<and> list_all isspace cs)"
proof (induction i cs tokens rule: tokenize_loop_induct [where A = A])
  case (Nil i tokens)
  then show ?case by simp
next
  case (Space i c cs tokens)
  from Space.prems have "tokenize_loop A (i + 1) cs tokens = Inr tokens'"
    by (simp only: tokenize_loop_step(1) [OF Space.hyps])
  from Space.IH [OF this] Space.hyps show ?case by simp
next
  case (Unary i c cs tokens)
  from Unary.prems have "tokenize_loop A (i + 1) cs (tokens @ [unaryMinusToken A]) = Inr tokens'"
    by (simp only: tokenize_loop_step(2) [OF Unary.hyps])
  from tokenize_loop_mono [OF this] Unary.hyps(1) show ?case by auto
next
  case (Number i c cs tokens)
  from Number.prems obtain i' numStr rest v where
    "tokenize_loop A i' rest (tokens @ [numberToken v]) = Inr tokens'"
    unfolding tokenize_loop_step(3) [OF Number.hyps]
    by (auto split: sum.splits option.splits)
  from tokenize_loop_mono [OF this] Number.hyps(1) show ?case by auto
next
  case (Operator i c cs tokens)
  from Operator.prems have "tokenize_loop A (i + 1) cs (tokens @ [operatorToken A c]) = Inr tokens'"
    by (simp only: tokenize_loop_step(4) [OF Operator.hyps])
  from tokenize_loop_mono [OF this] Operator.hyps(1) show ?case by auto
next
  case (Left i c cs tokens)
  from Left.prems have "tokenize_loop A (i + 1) cs (tokens @ [leftParenToken A]) = Inr tokens'"
    by (simp only: tokenize_loop_step(5) [OF Left.hyps])
  from tokenize_loop_mono [OF this] Left.hyps(1) show ?case by auto
next
  case (Right i c cs tokens)
  from Right.prems have "tokenize_loop A (i + 1) cs (tokens @ [rightParenToken A]) = Inr tokens'"
    by (simp only: tokenize_loop_step(6) [OF Right.hyps])
  from tokenize_loop_mono [OF this] Right.hyps(1) show ?case by auto
next
  case (Unknown i c cs tokens)
  from Unknown.prems show ?case
    by (simp only: tokenize_loop_step(7) [OF Unknown.hyps]) simp
qed

lemma numberStart_append:
  "endsLiteral rest \<Longrightarrow> numberStart c (cs @ rest) = numberStart c cs"
  by (cases cs; cases rest) (auto simp: numberStart_def endsLiteral_def numberChar_def)

lemma tokenize_loop_append:
  "endsLiteral rest \<Longrightarrow>
   tokenize_loop A i (pre @ rest) tokens =
     (case tokenize_loop A i pre tokens of
        Inl e \<Rightarrow> Inl e
      | Inr tokens' \<Rightarrow> tokenize_loop A (i + length pre) rest tokens')"
proof (induction i pre tokens rule: tokenize_loop_induct [where A = A])
  case (Nil i tokens)
  show ?case by simp
next
  case (Space i c cs tokens)
  have idx: "i + 1 + length cs = i + length (c # cs)" by simp
  show ?case
    by (simp only: append_Cons tokenize_loop_step(1) [OF Space.hyps]
        Space.IH [OF Space.prems, unfolded idx])
next
  case (Unary i c cs tokens)
  have idx: "i + 1 + length cs = i + length (c # cs)" by simp
  show ?case
    by (simp only: append_Cons tokenize_loop_step(2) [OF Unary.hyps]
        Unary.IH [OF Unary.prems, unfolded idx])
next
  case (Number i c cs tokens)
  from Number.hyps(3) Number.prems have ns: "numberStart c (cs @ rest)"
    by (simp add: numberStart_append)
  have scan: "scanNumber i (c # cs @ rest) False [] =
     (case scanNumber i (c # cs) False [] of
        Inl e \<Rightarrow> Inl e
      | Inr (i', n, r) \<Rightarrow> Inr (i', n, r @ rest))"
    using scanNumber_append [OF Number.prems, of i "c # cs" False "[]"] by simp
  show ?case
  proof (cases "scanNumber i (c # cs) False []")
    case (Inl e)
    show ?thesis
      by (simp only: append_Cons tokenize_loop_step(3) [OF Number.hyps(1,2) ns]
          tokenize_loop_step(3) [OF Number.hyps] scan Inl sum.case)
  next
    case (Inr p)
    then obtain i' n r where p: "scanNumber i (c # cs) False [] = Inr (i', n, r)"
      by (cases p) auto
    from scanNumber_index [OF p] have idx: "i' + length r = i + length (c # cs)" .
    show ?thesis
    proof (cases "d_stod A n")
      case None
      show ?thesis
        by (simp only: append_Cons tokenize_loop_step(3) [OF Number.hyps(1,2) ns]
            tokenize_loop_step(3) [OF Number.hyps] scan p None sum.case prod.case option.case)
    next
      case (Some v)
      show ?thesis
        by (simp only: append_Cons tokenize_loop_step(3) [OF Number.hyps(1,2) ns]
            tokenize_loop_step(3) [OF Number.hyps] scan p Some sum.case prod.case option.case
            Number.IH [OF p Some Number.prems, unfolded idx])
    qed
  qed
next
  case (Operator i c cs tokens)
  from Operator.hyps(3) Operator.prems have ns: "\<not> numberStart c (cs @ rest)"
    by (simp add: numberStart_append)
  have idx: "i + 1 + length cs = i + length (c # cs)" by simp
  show ?case
    by (simp only: append_Cons tokenize_loop_step(4) [OF Operator.hyps(1,2) ns Operator.hyps(4)]
        tokenize_loop_step(4) [OF Operator.hyps] Operator.IH [OF Operator.prems, unfolded idx])
next
  case (Left i c cs tokens)
  from Left.hyps(3) Left.prems have ns: "\<not> numberStart c (cs @ rest)"
    by (simp add: numberStart_append)
  have idx: "i + 1 + length cs = i + length (c # cs)" by simp
  show ?case
    by (simp only: append_Cons tokenize_loop_step(5) [OF Left.hyps(1,2) ns Left.hyps(4,5)]
        tokenize_loop_step(5) [OF Left.hyps] Left.IH [OF Left.prems, unfolded idx])
next
  case (Right i c cs tokens)
  from Right.hyps(3) Right.prems have ns: "\<not> numberStart c (cs @ rest)"
    by (simp add: numberStart_append)
  have idx: "i + 1 + length cs = i + length (c # cs)" by simp
  show ?case
    by (simp only: append_Cons tokenize_loop_step(6) [OF Right.hyps(1,2) ns Right.hyps(4,5,6)]
        tokenize_loop_step(6) [OF Right.hyps] Right.IH [OF Right.prems, unfolded idx])
next
  case (Unknown i c cs tokens)
  from Unknown.hyps(3) Unknown.prems have ns: "\<not> numberStart c (cs @ rest)"
    by (simp add: numberStart_append)
  show ?case
    by (simp only: append_Cons tokenize_loop_step(7) [OF Unknown.hyps(1,2) ns Unknown.hyps(4,5,6)]
        tokenize_loop_step(7) [OF Unknown.hyps] sum.case)
qed

lemma minus_other:
  "\<not> isspace (CHR ''-'') \<and> \<not> numberStart (CHR ''-'') cs \<and> isOperatorChar (CHR ''-'') \<and>
   endsLiteral (CHR ''-'' # cs)"
  by (simp add: isspace_def numberStart_def isdigit_def isOperatorChar_def endsLiteral_def
      numberChar_def)

lemma tokenize_minus:
  "tokenize A (pre @ CHR ''-'' # post) =
     (case tokenize A pre of
        Inl e \<Rightarrow> Inl e
      | Inr tokens \<Rightarrow> tokenize_loop A (length pre + 1) post (tokens @ [minusToken A pre tokens]))"
proof (cases "tokenize A pre")
  case (Inl e)
  then show ?thesis
    using tokenize_loop_append [of "CHR ''-'' # post" A 0 pre "[]"] minus_other [of post]
    by (simp add: tokenize_def del: tokenize_loop.simps)
next
  case (Inr tokens)
  then have t: "tokenize_loop A 0 pre [] = Inr tokens" by (simp add: tokenize_def)
  from tokenize_loop_empty [OF t] have e: "tokens = [] \<longleftrightarrow> list_all isspace pre" by simp
  have z: "length pre = 0 \<Longrightarrow> list_all isspace pre" by simp
  have "tokenize A (pre @ CHR ''-'' # post) = tokenize_loop A (length pre) (CHR ''-'' # post) tokens"
    using tokenize_loop_append [of "CHR ''-'' # post" A 0 pre "[]"] minus_other [of post] t
    by (simp add: tokenize_def del: tokenize_loop.simps)
  also have "\<dots> = tokenize_loop A (length pre + 1) post (tokens @ [minusToken A pre tokens])"
  proof (cases "unaryPosition (length pre) tokens")
    case True
    then have "minusToken A pre tokens = unaryMinusToken A"
      using e z by (auto simp: minusToken_def unaryPosition_def)
    then show ?thesis
      using tokenize_loop_step(2) [of "CHR ''-''" "length pre" tokens A post] True minus_other [of post]
      by simp
  next
    case False
    then have "minusToken A pre tokens = operatorToken A (CHR ''-'')"
      using e z by (auto simp: minusToken_def unaryPosition_def)
    then show ?thesis
      using tokenize_loop_step(4) [of "CHR ''-''" "length pre" tokens post A] False minus_other [of post]
      by simp
  qed
  finally show ?thesis by (simp add: Inr)
qed

text \<open>
  C3. For an input with a \<^verbatim>\<open>-\<close> after the prefix \<open>pre\<close>: if the prefix tokenizes
  to \<open>tokens\<close>, the \<^verbatim>\<open>-\<close> is appended as the unary-minus operator \<^verbatim>\<open>u\<close> when
  \<open>pre\<close> is white space only (the minus is the first content of the input) or the
  last token is an operator or a left parenthesis, and as the binary operator
  \<^verbatim>\<open>-\<close> in every other case; both are operator tokens, so a minus after a unary
  minus is unary again. \<^verbatim>\<open>--5\<close> evaluates to \<^verbatim>\<open>-(-5)\<close> and \<^verbatim>\<open>3 - -2\<close> to
  \<^verbatim>\<open>3 - (-2)\<close>: both 5 in exact arithmetic.
\<close>

theorem unary_minus_classification:
  "tokenize A (pre @ CHR ''-'' # post) =
     (case tokenize A pre of
        Inl e \<Rightarrow> Inl e
      | Inr tokens \<Rightarrow>
          tokenize_loop A (length pre + 1) post
            (tokens @
             [if list_all isspace pre \<or>
                 (tokens \<noteq> [] \<and> (type (last tokens) = OPERATOR \<or> type (last tokens) = PAREN_LEFT))
              then unaryMinusToken A else operatorToken A (CHR ''-'')])) \<and>
   type (unaryMinusToken A) = OPERATOR \<and> op (unaryMinusToken A) = CHR ''u'' \<and>
   type (operatorToken A (CHR ''-'')) = OPERATOR \<and> op (operatorToken A (CHR ''-'')) = CHR ''-'' \<and>
   (d_stod B ''5'' = Some a \<longrightarrow>
      outcome (evaluateExpr B ''--5'') = Inr (d_neg B (d_neg B a))) \<and>
   (d_stod B ''3'' = Some b \<longrightarrow> d_stod B ''2'' = Some c \<longrightarrow>
      outcome (evaluateExpr B ''3 - -2'') = Inr (d_sub B b (d_neg B c))) \<and>
   outcome (evaluateExpr exact_arith ''--5'') = Inr 5 \<and>
   outcome (evaluateExpr exact_arith ''3 - -2'') = Inr 5"
proof (intro conjI impI)
  show "tokenize A (pre @ CHR ''-'' # post) =
     (case tokenize A pre of
        Inl e \<Rightarrow> Inl e
      | Inr tokens \<Rightarrow>
          tokenize_loop A (length pre + 1) post
            (tokens @
             [if list_all isspace pre \<or>
                 (tokens \<noteq> [] \<and> (type (last tokens) = OPERATOR \<or> type (last tokens) = PAREN_LEFT))
              then unaryMinusToken A else operatorToken A (CHR ''-'')]))"
    by (simp only: tokenize_minus minusToken_def)
next
  assume "d_stod B ''5'' = Some a"
  then show "outcome (evaluateExpr B ''--5'') = Inr (d_neg B (d_neg B a))"
    by (simp add: pipeline_defs token_defs char_defs)
next
  assume "d_stod B ''3'' = Some b" "d_stod B ''2'' = Some c"
  then show "outcome (evaluateExpr B ''3 - -2'') = Inr (d_sub B b (d_neg B c))"
    by (simp add: pipeline_defs token_defs char_defs)
next
  show "outcome (evaluateExpr exact_arith ''--5'') = Inr 5"
    by (simp add: pipeline_defs token_defs char_defs exact_defs)
next
  show "outcome (evaluateExpr exact_arith ''3 - -2'') = Inr 5"
    by (simp add: pipeline_defs token_defs char_defs exact_defs)
qed (simp_all add: token_defs)

theorem unary_minus_classification_witness:
  "tokenize exact_arith ''3 - -2''
     = Inr [numberToken 3, operatorToken exact_arith (CHR ''-''), unaryMinusToken exact_arith,
            numberToken 2] \<and>
   tokenize exact_arith '' -(-5)''
     = Inr [unaryMinusToken exact_arith, leftParenToken exact_arith, unaryMinusToken exact_arith,
            numberToken 5, rightParenToken exact_arith] \<and>
   tokenize exact_arith ''(1)-2''
     = Inr [leftParenToken exact_arith, numberToken 1, rightParenToken exact_arith,
            operatorToken exact_arith (CHR ''-''), numberToken 2] \<and>
   d_stod exact_arith ''5'' = Some 5 \<and> d_stod exact_arith ''3'' = Some 3 \<and>
   d_stod exact_arith ''2'' = Some 2 \<and>
   outcome (evaluateExpr exact_arith ''--5'') = Inr (d_neg exact_arith (d_neg exact_arith 5)) \<and>
   outcome (evaluateExpr exact_arith ''3 - -2'') = Inr (d_sub exact_arith 3 (d_neg exact_arith 2))"
  using unary_minus_classification [of exact_arith "''3 - ''" "''2''" exact_arith 5 3 2]
    unary_minus_classification [of exact_arith "''3 ''" "'' -2''" exact_arith 5 3 2]
    unary_minus_classification [of exact_arith "'' ''" "''(-5)''" exact_arith 5 3 2]
    unary_minus_classification [of exact_arith "'' -(''" "''5)''" exact_arith 5 3 2]
    unary_minus_classification [of exact_arith "''(1)''" "''2''" exact_arith 5 3 2]
  by (simp add: tokenize_def token_defs char_defs exact_defs)

section \<open>The two calculators\<close>

lemma clean_precedence_eq: "clean_precedence c = precedence c"
  by (simp add: clean_precedence_def precedence_def)

lemma clean_isRightAssociative_eq: "clean_isRightAssociative c = isRightAssociative c"
  by (simp add: clean_isRightAssociative_def isRightAssociative_def)

lemma clean_applyOperation_eq: "clean_applyOperation A x y c = applyOperation A x y c"
  by (simp add: clean_applyOperation_def applyOperation_def)

lemma clean_scanNumber_eq: "clean_scanNumber i cs h n = scanNumber i cs h n"
  by (induction cs arbitrary: i h n) simp_all

lemma clean_tokenize_loop_Cons:
  "clean_tokenize_loop A i (c # cs) tokens =
    (if isspace c then clean_tokenize_loop A (i + 1) cs tokens
     else if c = CHR ''-'' \<and> unaryPosition i tokens
       then clean_tokenize_loop A (i + 1) cs (tokens @ [unaryMinusToken A])
     else if numberStart c cs then
       (case scanNumber i (c # cs) False [] of
          Inl e \<Rightarrow> Inl e
        | Inr (i', numStr, rest) \<Rightarrow>
            (case d_stod A numStr of
               None \<Rightarrow> Inl StodOutOfRange
             | Some v \<Rightarrow> clean_tokenize_loop A i' rest (tokens @ [numberToken v])))
     else if isOperatorChar c then clean_tokenize_loop A (i + 1) cs (tokens @ [operatorToken A c])
     else if c = CHR ''('' then clean_tokenize_loop A (i + 1) cs (tokens @ [leftParenToken A])
     else if c = CHR '')'' then clean_tokenize_loop A (i + 1) cs (tokens @ [rightParenToken A])
     else Inl (UnknownCharacter c))"
  unfolding unaryPosition_def numberStart_def clean_scanNumber_eq [symmetric]
  by (rule clean_tokenize_loop.simps(2))

lemma clean_tokenize_loop_eq: "clean_tokenize_loop A i cs tokens = tokenize_loop A i cs tokens"
proof (induction i cs tokens rule: tokenize_loop_induct [where A = A])
  case (Nil i tokens)
  show ?case by simp
next
  case (Space i c cs tokens)
  then show ?case by (simp only: clean_tokenize_loop_Cons tokenize_loop_Cons if_True)
next
  case (Unary i c cs tokens)
  then show ?case by (simp only: clean_tokenize_loop_Cons tokenize_loop_Cons if_True if_False simp_thms)
next
  case (Number i c cs tokens)
  show ?case
  proof (cases "scanNumber i (c # cs) False []")
    case (Inl e)
    with Number.hyps show ?thesis
      by (simp only: clean_tokenize_loop_Cons tokenize_loop_Cons if_True if_False simp_thms sum.case)
  next
    case (Inr p)
    then obtain i' n r where p: "scanNumber i (c # cs) False [] = Inr (i', n, r)"
      by (cases p) auto
    show ?thesis
    proof (cases "d_stod A n")
      case None
      with p Number.hyps show ?thesis
        by (simp only: clean_tokenize_loop_Cons tokenize_loop_Cons if_True if_False simp_thms
            sum.case prod.case option.case)
    next
      case (Some v)
      with p Number.hyps Number.IH [OF p Some] show ?thesis
        by (simp only: clean_tokenize_loop_Cons tokenize_loop_Cons if_True if_False simp_thms
            sum.case prod.case option.case)
    qed
  qed
next
  case (Operator i c cs tokens)
  then show ?case by (simp only: clean_tokenize_loop_Cons tokenize_loop_Cons if_True if_False simp_thms)
next
  case (Left i c cs tokens)
  then show ?case by (simp only: clean_tokenize_loop_Cons tokenize_loop_Cons if_True if_False simp_thms)
next
  case (Right i c cs tokens)
  then show ?case by (simp only: clean_tokenize_loop_Cons tokenize_loop_Cons if_True if_False simp_thms)
next
  case (Unknown i c cs tokens)
  then show ?case by (simp only: clean_tokenize_loop_Cons tokenize_loop_Cons if_True if_False simp_thms)
qed

lemma clean_tokenize_eq: "clean_tokenize A expr = tokenize A expr"
  by (simp add: clean_tokenize_def tokenize_def clean_tokenize_loop_eq)

lemma clean_popOperators_eq: "clean_popOperators tok out st = popOperators tok out st"
  by (induction tok out st rule: popOperators.induct)
     (simp_all add: clean_precedence_eq clean_isRightAssociative_eq)

lemma clean_popUntilLeftParen_eq: "clean_popUntilLeftParen out st = popUntilLeftParen out st"
  by (induction out st rule: popUntilLeftParen.induct) simp_all

lemma clean_drainStack_eq: "clean_drainStack out st = drainStack out st"
  by (induction out st rule: drainStack.induct) simp_all

lemma clean_toPostfix_loop_eq: "clean_toPostfix_loop ts out st = toPostfix_loop ts out st"
  by (induction ts out st rule: toPostfix_loop.induct)
     (simp_all add: clean_popOperators_eq clean_popUntilLeftParen_eq clean_drainStack_eq
        split: prod.splits)

lemma clean_toPostfix_eq: "clean_toPostfix tokens = toPostfix tokens"
  by (simp add: clean_toPostfix_def toPostfix_def clean_toPostfix_loop_eq)

lemma evaluatePostfix_loop_result:
  "snd (evaluatePostfix_loop A postfix st out) = clean_evaluatePostfix_loop A postfix st"
proof (induction postfix arbitrary: st out)
  case Nil
  show ?case by simp
next
  case (Cons tok postfix)
  show ?case
  proof (cases "type tok")
    case NUMBER
    then show ?thesis using Cons.IH by simp
  next
    case OPERATOR
    show ?thesis
    proof (cases "op tok = CHR ''u'' \<or> op tok = CHR ''%''")
      case True
      with OPERATOR show ?thesis using Cons.IH by (auto simp: Let_def split: list.splits)
    next
      case False
      with OPERATOR show ?thesis using Cons.IH
        by (auto simp: clean_applyOperation_eq split: list.splits sum.splits)
    qed
  next
    case PAREN_LEFT
    then show ?thesis using Cons.IH by simp
  next
    case PAREN_RIGHT
    then show ?thesis using Cons.IH by simp
  qed
qed

lemma evaluatePostfix_result:
  "snd (evaluatePostfix A postfix out) = clean_evaluatePostfix A postfix"
proof -
  obtain out' r where e: "evaluatePostfix_loop A postfix [] out = (out', r)" by force
  with evaluatePostfix_loop_result [of A postfix "[]" out]
  have "clean_evaluatePostfix_loop A postfix [] = r" by simp
  with e show ?thesis
    by (cases r) (simp_all add: evaluatePostfix_def clean_evaluatePostfix_def)
qed

text \<open>
  C9. On every input the traced calculator of \<^verbatim>\<open>src/main.cpp\<close> and the calculator
  of \<^verbatim>\<open>src/clean/main.cpp\<close> end alike: with the same value, or with the same
  exception. Stage by stage, the two tokenizers and the two reorderers are the same
  functions, and what the traced evaluator returns is what the clean one returns,
  whatever has been written to the output before.
\<close>

theorem traced_and_clean_agree:
  "outcome (evaluateExpr A expr) = clean_evaluateExpr A expr \<and>
   clean_tokenize A expr = tokenize A expr \<and>
   clean_toPostfix tokens = toPostfix tokens \<and>
   snd (evaluatePostfix A postfix out) = clean_evaluatePostfix A postfix"
proof -
  have "outcome (evaluateExpr A expr) = clean_evaluateExpr A expr"
    by (simp add: outcome_def evaluateExpr_def clean_evaluateExpr_def clean_tokenize_eq
        clean_toPostfix_eq evaluatePostfix_result Let_def split: sum.splits)
  then show ?thesis
    by (simp add: clean_tokenize_eq clean_toPostfix_eq evaluatePostfix_result)
qed

end
